theory Spec2Isabelle
  imports Complex_Main "HOL-Library.Log_Nat"
begin

section \<open>Python values\<close>

text \<open>
  The values a ticket field can hold are the primitives of the data model: null, booleans,
  integers (unbounded), floating-point numbers and text. Lists and dicts as field values are
  outside the model. A finite float is carried by the rational number it denotes (the sign
  of zero is not tracked: the two zeros are equal in Python, and no operation used here
  tells them apart); infinities and NaN are separate constructors.
\<close>

datatype pyfloat = Fin rat | PosInf | NegInf | NaN

datatype pyval = PNone | PBool bool | PInt int | PFloat pyfloat | PStr string

text \<open>
  The exceptions the operations below can raise. Only \<open>OverflowError\<close> is ever reached
  by the functions of the module.
\<close>

datatype error = OverflowError | ZeroDivisionError | TypeError | KeyError

text \<open>A ticket is a dict from field names (text) to values.\<close>

type_synonym ticket = "string \<rightharpoonup> pyval"

text \<open>\<^verbatim>\<open>d.get(key)\<close> and \<^verbatim>\<open>d.get(key, default)\<close>.\<close>

definition get_field :: "ticket \<Rightarrow> string \<Rightarrow> pyval" where
  "get_field t k = (case t k of None \<Rightarrow> PNone | Some v \<Rightarrow> v)"

definition get_default :: "ticket \<Rightarrow> string \<Rightarrow> pyval \<Rightarrow> pyval" where
  "get_default t k d = (case t k of None \<Rightarrow> d | Some v \<Rightarrow> v)"

text \<open>\<^verbatim>\<open>isinstance(v, int)\<close>: \<^verbatim>\<open>bool\<close> is a subclass of \<^verbatim>\<open>int\<close>.\<close>

fun isinstance_int :: "pyval \<Rightarrow> bool" where
  "isinstance_int (PInt i) = True"
| "isinstance_int (PBool b) = True"
| "isinstance_int v = False"

text \<open>\<^verbatim>\<open>isinstance(v, (int, float))\<close>.\<close>

fun isinstance_int_float :: "pyval \<Rightarrow> bool" where
  "isinstance_int_float (PInt i) = True"
| "isinstance_int_float (PBool b) = True"
| "isinstance_int_float (PFloat f) = True"
| "isinstance_int_float v = False"

section \<open>Validator\<close>

subsection \<open>validate_keys\<close>

text \<open>\<^verbatim>\<open>set(required_keys).issubset(ticket.keys())\<close>\<close>

definition issubset :: "string list \<Rightarrow> ticket \<Rightarrow> bool" where
  "issubset required_keys t = list_all (\<lambda>k. t k \<noteq> None) required_keys"

text \<open>The loop over \<^verbatim>\<open>enumerate(tickets)\<close>, with the list built so far.\<close>

fun validate_keys_loop :: "string list \<Rightarrow> nat \<Rightarrow> ticket list \<Rightarrow> nat list \<Rightarrow> nat list" where
  "validate_keys_loop required_keys index [] missing_key_indices = missing_key_indices"
| "validate_keys_loop required_keys index (t # ts) missing_key_indices =
     validate_keys_loop required_keys (Suc index) ts
       (if \<not> issubset required_keys t then missing_key_indices @ [index]
        else missing_key_indices)"

definition validate_keys :: "ticket list \<Rightarrow> string list \<Rightarrow> nat list" where
  "validate_keys tickets required_keys = validate_keys_loop required_keys 0 tickets []"

subsection \<open>find_invalid_resolutions\<close>

record invalid_record =
  index :: nat
  ticket_id :: pyval
  invalid_value :: pyval
  issue_type :: string

fun find_invalid_loop :: "nat \<Rightarrow> ticket list \<Rightarrow> invalid_record list \<Rightarrow> invalid_record list" where
  "find_invalid_loop i [] invalid_records = invalid_records"
| "find_invalid_loop i (t # ts) invalid_records =
     (let val = get_field t ''resolution_minutes'' in
      find_invalid_loop (Suc i) ts
        (if val = PNone \<or> \<not> isinstance_int val
         then invalid_records @
           [\<lparr>index = i,
             ticket_id = get_default t ''ticket_id'' (PStr ''UNKNOWN''),
             invalid_value = val,
             issue_type = (if val = PNone then ''Missing'' else ''Wrong Type'')\<rparr>]
         else invalid_records))"

definition find_invalid_resolutions :: "ticket list \<Rightarrow> invalid_record list" where
  "find_invalid_resolutions tickets = find_invalid_loop 0 tickets []"

section \<open>Floating-point arithmetic\<close>

text \<open>
  Python floats are IEEE 754 binary64 numbers. Every arithmetic operation returns the
  exact result rounded to the nearest representable number, ties to the even significand:
  53 significant bits, the smallest spacing \<open>2 ^ (- 1074)\<close>, and overflow once the rounded
  magnitude reaches \<open>2 ^ 1024\<close>.
\<close>

definition pow2 :: "int \<Rightarrow> rat" where
  "pow2 p = (if 0 \<le> p then 2 ^ nat p else 1 / 2 ^ nat (- p))"

definition round_half_even :: "rat \<Rightarrow> int" where
  "round_half_even x =
     (let f = \<lfloor>x\<rfloor>; d = x - of_int f in
      if d < 1 / 2 then f
      else if 1 / 2 < d then f + 1
      else if even f then f else f + 1)"

text \<open>The binary exponent \<open>\<lfloor>log\<^sub>2 a\<rfloor>\<close> of a positive rational.\<close>

definition ilog2 :: "rat \<Rightarrow> int" where
  "ilog2 a =
     (let k = bitlen (fst (quotient_of a)) - bitlen (snd (quotient_of a)) in
      if pow2 k \<le> a then k else k - 1)"

definition round_nearest :: "rat \<Rightarrow> rat" where
  "round_nearest q =
     (if q = 0 then 0
      else let p = max (ilog2 \<bar>q\<bar> - 52) (- 1074) in
           of_int (round_half_even (q / pow2 p)) * pow2 p)"

definition round_double :: "rat \<Rightarrow> pyfloat" where
  "round_double q =
     (let r = round_nearest q in
      if pow2 1024 \<le> r then PosInf
      else if r \<le> - pow2 1024 then NegInf
      else Fin r)"

text \<open>
  Where Python itself produces a float from exact operands (\<^verbatim>\<open>float(i)\<close>, \<^verbatim>\<open>i / j\<close>,
  \<^verbatim>\<open>round(x, n)\<close>), a result out of range raises \<^verbatim>\<open>OverflowError\<close>.
\<close>

definition checked_double :: "rat \<Rightarrow> error + pyfloat" where
  "checked_double q =
     (case round_double q of Fin r \<Rightarrow> Inr (Fin r) | _ \<Rightarrow> Inl OverflowError)"

definition float_of_int :: "int \<Rightarrow> error + pyfloat" where
  "float_of_int i = checked_double (of_int i)"

fun float_add :: "pyfloat \<Rightarrow> pyfloat \<Rightarrow> pyfloat" where
  "float_add NaN y = NaN"
| "float_add x NaN = NaN"
| "float_add PosInf NegInf = NaN"
| "float_add NegInf PosInf = NaN"
| "float_add PosInf y = PosInf"
| "float_add NegInf y = NegInf"
| "float_add x PosInf = PosInf"
| "float_add x NegInf = NegInf"
| "float_add (Fin a) (Fin b) = round_double (a + b)"

fun float_neg :: "pyfloat \<Rightarrow> pyfloat" where
  "float_neg (Fin a) = Fin (- a)"
| "float_neg PosInf = NegInf"
| "float_neg NegInf = PosInf"
| "float_neg NaN = NaN"

fun float_mul :: "pyfloat \<Rightarrow> pyfloat \<Rightarrow> pyfloat" where
  "float_mul NaN y = NaN"
| "float_mul x NaN = NaN"
| "float_mul (Fin a) (Fin b) = round_double (a * b)"
| "float_mul (Fin a) y = (if a = 0 then NaN else if 0 < a then y else float_neg y)"
| "float_mul x (Fin b) = (if b = 0 then NaN else if 0 < b then x else float_neg x)"
| "float_mul x y = (if x = y then PosInf else NegInf)"

text \<open>\<^verbatim>\<open>x / y\<close> on floats: a zero divisor raises, everything else follows IEEE 754.\<close>

fun float_div :: "pyfloat \<Rightarrow> pyfloat \<Rightarrow> error + pyfloat" where
  "float_div NaN (Fin b) = (if b = 0 then Inl ZeroDivisionError else Inr NaN)"
| "float_div NaN y = Inr NaN"
| "float_div x NaN = Inr NaN"
| "float_div (Fin a) (Fin b) =
     (if b = 0 then Inl ZeroDivisionError else Inr (round_double (a / b)))"
| "float_div (Fin a) y = Inr (Fin 0)"
| "float_div x (Fin b) =
     (if b = 0 then Inl ZeroDivisionError
      else if 0 < b then Inr x else Inr (float_neg x))"
| "float_div x y = Inr NaN"

section \<open>Arithmetic on Python values\<close>

datatype pynum = NInt int | NFloat pyfloat

text \<open>The numeric reading of a value: a bool is the integer 0 or 1.\<close>

fun num_of :: "pyval \<Rightarrow> pynum option" where
  "num_of (PInt i) = Some (NInt i)"
| "num_of (PBool b) = Some (NInt (if b then 1 else 0))"
| "num_of (PFloat f) = Some (NFloat f)"
| "num_of v = None"

text \<open>\<^verbatim>\<open>a + b\<close>: integers add exactly; with a float operand the integer is converted first.\<close>

fun num_add :: "pynum \<Rightarrow> pynum \<Rightarrow> error + pyval" where
  "num_add (NInt a) (NInt b) = Inr (PInt (a + b))"
| "num_add (NInt a) (NFloat y) =
     (case float_of_int a of Inl e \<Rightarrow> Inl e | Inr x \<Rightarrow> Inr (PFloat (float_add x y)))"
| "num_add (NFloat x) (NInt b) =
     (case float_of_int b of Inl e \<Rightarrow> Inl e | Inr y \<Rightarrow> Inr (PFloat (float_add x y)))"
| "num_add (NFloat x) (NFloat y) = Inr (PFloat (float_add x y))"

definition py_add :: "pyval \<Rightarrow> pyval \<Rightarrow> error + pyval" where
  "py_add a b =
     (case (num_of a, num_of b) of
        (Some x, Some y) \<Rightarrow> num_add x y
      | _ \<Rightarrow> (case (a, b) of (PStr s, PStr t) \<Rightarrow> Inr (PStr (s @ t)) | _ \<Rightarrow> Inl TypeError))"

text \<open>
  \<^verbatim>\<open>a / b\<close>: true division always yields a float. On two integers it is the correctly
  rounded exact quotient.
\<close>

fun num_truediv :: "pynum \<Rightarrow> pynum \<Rightarrow> error + pyfloat" where
  "num_truediv (NInt a) (NInt b) =
     (if b = 0 then Inl ZeroDivisionError else checked_double (of_int a / of_int b))"
| "num_truediv (NInt a) (NFloat y) =
     (case float_of_int a of Inl e \<Rightarrow> Inl e | Inr x \<Rightarrow> float_div x y)"
| "num_truediv (NFloat x) (NInt b) =
     (case float_of_int b of Inl e \<Rightarrow> Inl e | Inr y \<Rightarrow> float_div x y)"
| "num_truediv (NFloat x) (NFloat y) = float_div x y"

definition py_truediv :: "pyval \<Rightarrow> pyval \<Rightarrow> error + pyfloat" where
  "py_truediv a b =
     (case (num_of a, num_of b) of
        (Some x, Some y) \<Rightarrow> num_truediv x y
      | _ \<Rightarrow> Inl TypeError)"

text \<open>\<^verbatim>\<open>x * i\<close> for a float \<^verbatim>\<open>x\<close> and an integer \<^verbatim>\<open>i\<close>.\<close>

definition float_mul_int :: "pyfloat \<Rightarrow> int \<Rightarrow> error + pyfloat" where
  "float_mul_int x i =
     (case float_of_int i of Inl e \<Rightarrow> Inl e | Inr y \<Rightarrow> Inr (float_mul x y))"

text \<open>
  \<^verbatim>\<open>round(x, 2)\<close> for a float \<^verbatim>\<open>x\<close>: the exact value of \<^verbatim>\<open>x\<close> is rounded to two decimals,
  ties to the even digit, and the decimal is converted back to the nearest float.
  Infinities and NaN round to themselves.
\<close>

fun round2 :: "pyfloat \<Rightarrow> error + pyfloat" where
  "round2 (Fin q) = checked_double (of_int (round_half_even (q * 100)) / 100)"
| "round2 x = Inr x"


section \<open>Dicts keyed by Python values\<close>

text \<open>
  A dict is kept as the list of its entries in insertion order. Keys match when they are
  equal in Python: numbers by value across \<^verbatim>\<open>bool\<close>, \<^verbatim>\<open>int\<close> and \<^verbatim>\<open>float\<close>
  (so \<^verbatim>\<open>True\<close>, \<^verbatim>\<open>1\<close> and \<^verbatim>\<open>1.0\<close> are one key), everything else by type and
  content. A dict finds a key that is the very same object before it compares; the model
  has no object identity and treats NaN keys as one object.
\<close>

fun key_norm :: "pyval \<Rightarrow> pyval" where
  "key_norm (PBool b) = PFloat (Fin (if b then 1 else 0))"
| "key_norm (PInt i) = PFloat (Fin (of_int i))"
| "key_norm v = v"

definition key_eq :: "pyval \<Rightarrow> pyval \<Rightarrow> bool" where
  "key_eq a b \<longleftrightarrow> key_norm a = key_norm b"

type_synonym 'v pydict = "(pyval \<times> 'v) list"

text \<open>\<^verbatim>\<open>k in d\<close>, \<^verbatim>\<open>d[k]\<close> and \<^verbatim>\<open>d[k] = v\<close>.\<close>

fun dict_contains :: "'v pydict \<Rightarrow> pyval \<Rightarrow> bool" where
  "dict_contains [] k = False"
| "dict_contains ((k', v') # d) k = (key_eq k' k \<or> dict_contains d k)"

fun dict_getitem :: "'v pydict \<Rightarrow> pyval \<Rightarrow> error + 'v" where
  "dict_getitem [] k = Inl KeyError"
| "dict_getitem ((k', v') # d) k = (if key_eq k' k then Inr v' else dict_getitem d k)"

fun dict_setitem :: "'v pydict \<Rightarrow> pyval \<Rightarrow> 'v \<Rightarrow> 'v pydict" where
  "dict_setitem [] k v = [(k, v)]"
| "dict_setitem ((k', v') # d) k v =
     (if key_eq k' k then (k', v) # d else (k', v') # dict_setitem d k v)"

section \<open>Aggregator\<close>

subsection \<open>get_average_resolution_by_category\<close>

record stats =
  total_minutes :: pyval
  count_tickets :: int

text \<open>The body of the first loop: one ticket against \<^verbatim>\<open>temp_stats\<close>.\<close>

definition average_step :: "stats pydict \<Rightarrow> ticket \<Rightarrow> error + stats pydict" where
  "average_step temp_stats t =
     (let cat = get_default t ''category'' (PStr ''Unknown'');
          mins = get_default t ''resolution_minutes'' (PInt 0) in
      if \<not> isinstance_int_float mins then Inr temp_stats
      else
        let temp_stats1 =
              (if \<not> dict_contains temp_stats cat
               then dict_setitem temp_stats cat \<lparr>total_minutes = PInt 0, count_tickets = 0\<rparr>
               else temp_stats) in
        case dict_getitem temp_stats1 cat of
          Inl e \<Rightarrow> Inl e
        | Inr data \<Rightarrow>
            (case py_add (total_minutes data) mins of
               Inl e \<Rightarrow> Inl e
             | Inr s \<Rightarrow>
                 Inr (dict_setitem temp_stats1 cat
                        \<lparr>total_minutes = s, count_tickets = count_tickets data + 1\<rparr>)))"

fun average_loop :: "stats pydict \<Rightarrow> ticket list \<Rightarrow> error + stats pydict" where
  "average_loop temp_stats [] = Inr temp_stats"
| "average_loop temp_stats (t # ts) =
     (case average_step temp_stats t of
        Inl e \<Rightarrow> Inl e
      | Inr temp_stats' \<Rightarrow> average_loop temp_stats' ts)"

text \<open>The second loop, over \<^verbatim>\<open>temp_stats.items()\<close>.\<close>

fun averages_loop :: "pyval pydict \<Rightarrow> stats pydict \<Rightarrow> error + pyval pydict" where
  "averages_loop averages [] = Inr averages"
| "averages_loop averages ((cat, data) # items) =
     (if count_tickets data > 0
      then (case py_truediv (total_minutes data) (PInt (count_tickets data)) of
              Inl e \<Rightarrow> Inl e
            | Inr q \<Rightarrow>
                (case round2 q of
                   Inl e \<Rightarrow> Inl e
                 | Inr r \<Rightarrow> averages_loop (dict_setitem averages cat (PFloat r)) items))
      else averages_loop (dict_setitem averages cat (PInt 0)) items)"

definition get_average_resolution_by_category :: "ticket list \<Rightarrow> error + pyval pydict" where
  "get_average_resolution_by_category tickets =
     (case average_loop [] tickets of
        Inl e \<Rightarrow> Inl e
      | Inr temp_stats \<Rightarrow> averages_loop [] temp_stats)"

subsection \<open>get_escalation_rates\<close>

record category_count =
  total_cat :: int
  critical_cat :: int

record counters =
  category_counts :: "category_count pydict"
  total_tickets :: int
  total_critical :: int

record rates =
  overall_rate :: pyfloat
  by_category :: "pyfloat pydict"

definition escalation_step :: "counters \<Rightarrow> ticket \<Rightarrow> error + counters" where
  "escalation_step c t =
     (let cat = get_default t ''category'' (PStr ''Unknown'');
          priority = get_default t ''priority'' (PStr ''Low'');
          is_critical = (if priority = PStr ''Critical'' then 1 else 0);
          category_counts1 =
              (if \<not> dict_contains (category_counts c) cat
               then dict_setitem (category_counts c) cat \<lparr>total_cat = 0, critical_cat = 0\<rparr>
               else category_counts c) in
      case dict_getitem category_counts1 cat of
        Inl e \<Rightarrow> Inl e
      | Inr data \<Rightarrow>
          Inr \<lparr>category_counts =
                 dict_setitem category_counts1 cat
                   \<lparr>total_cat = total_cat data + 1,
                    critical_cat = critical_cat data + is_critical\<rparr>,
               total_tickets = total_tickets c + 1,
               total_critical = total_critical c + is_critical\<rparr>)"

fun escalation_loop :: "counters \<Rightarrow> ticket list \<Rightarrow> error + counters" where
  "escalation_loop c [] = Inr c"
| "escalation_loop c (t # ts) =
     (case escalation_step c t of
        Inl e \<Rightarrow> Inl e
      | Inr c' \<Rightarrow> escalation_loop c' ts)"

text \<open>\<^verbatim>\<open>round((critical / total) * 100, 2)\<close>\<close>

definition percentage :: "int \<Rightarrow> int \<Rightarrow> error + pyfloat" where
  "percentage n_critical n_total =
     (case py_truediv (PInt n_critical) (PInt n_total) of
        Inl e \<Rightarrow> Inl e
      | Inr q \<Rightarrow>
          (case float_mul_int q 100 of
             Inl e \<Rightarrow> Inl e
           | Inr pct \<Rightarrow> round2 pct))"

fun rates_loop :: "pyfloat pydict \<Rightarrow> category_count pydict \<Rightarrow> error + pyfloat pydict" where
  "rates_loop by_cat [] = Inr by_cat"
| "rates_loop by_cat ((cat, data) # items) =
     (if total_cat data > 0
      then (case percentage (critical_cat data) (total_cat data) of
              Inl e \<Rightarrow> Inl e
            | Inr r \<Rightarrow> rates_loop (dict_setitem by_cat cat r) items)
      else rates_loop by_cat items)"

definition get_escalation_rates :: "ticket list \<Rightarrow> error + rates" where
  "get_escalation_rates tickets =
     (case escalation_loop \<lparr>category_counts = [], total_tickets = 0, total_critical = 0\<rparr> tickets of
        Inl e \<Rightarrow> Inl e
      | Inr c \<Rightarrow>
          (case (if total_tickets c > 0
                 then percentage (total_critical c) (total_tickets c)
                 else Inr (Fin 0)) of
             Inl e \<Rightarrow> Inl e
           | Inr overall \<Rightarrow>
               (case rates_loop [] (category_counts c) of
                  Inl e \<Rightarrow> Inl e
                | Inr by_cat \<Rightarrow> Inr \<lparr>overall_rate = overall, by_category = by_cat\<rparr>)))"

section \<open>Reporter\<close>

record meta =
  total_records :: nat
  status :: string

record report =
  meta :: meta
  averages :: "pyval pydict"
  escalations :: rates

definition generate_final_report :: "ticket list \<Rightarrow> error + report" where
  "generate_final_report tickets =
     (case get_average_resolution_by_category tickets of
        Inl e \<Rightarrow> Inl e
      | Inr avgs \<Rightarrow>
          (case get_escalation_rates tickets of
             Inl e \<Rightarrow> Inl e
           | Inr esc \<Rightarrow>
               Inr \<lparr>meta = \<lparr>total_records = length tickets, status = ''Success''\<rparr>,
                    averages = avgs,
                    escalations = esc\<rparr>))"

section \<open>Vocabulary of the specification\<close>

subsection \<open>Reading a ticket\<close>

text \<open>
  The category of a ticket, with its default; the value its \<open>resolution_minutes\<close> adds to
  a sum, with its default; and whether the aggregator counts the ticket: the field is absent
  (and defaults to the integer 0) or holds an \<open>int\<close>, a \<open>bool\<close> or a \<open>float\<close>.
\<close>

definition category_of :: "ticket \<Rightarrow> pyval" where
  "category_of t = (case t ''category'' of None \<Rightarrow> PStr ''Unknown'' | Some v \<Rightarrow> v)"

definition minutes_of :: "ticket \<Rightarrow> pyval" where
  "minutes_of t = (case t ''resolution_minutes'' of None \<Rightarrow> PInt 0 | Some v \<Rightarrow> v)"

definition counted :: "ticket \<Rightarrow> bool" where
  "counted t = (case t ''resolution_minutes'' of None \<Rightarrow> True | Some v \<Rightarrow> isinstance_int_float v)"

text \<open>
  A ticket is an escalation when its priority is the text \<open>Critical\<close>; an absent priority
  is not.
\<close>

definition is_critical :: "ticket \<Rightarrow> bool" where
  "is_critical t = (case t ''priority'' of None \<Rightarrow> False | Some v \<Rightarrow> v = PStr ''Critical'')"

text \<open>
  The validator's reading of \<open>resolution_minutes\<close>: a ticket is flagged when the field is
  absent, null or not an integer, and this is the diagnostic record of a flagged ticket at
  position \<open>i\<close>.
\<close>

definition flagged :: "ticket \<Rightarrow> bool" where
  "flagged t =
     (case t ''resolution_minutes'' of
        None \<Rightarrow> True
      | Some v \<Rightarrow> v = PNone \<or> \<not> isinstance_int v)"

definition diagnostic :: "nat \<Rightarrow> ticket \<Rightarrow> invalid_record" where
  "diagnostic i t =
     \<lparr>index = i,
      ticket_id = (case t ''ticket_id'' of None \<Rightarrow> PStr ''UNKNOWN'' | Some v \<Rightarrow> v),
      invalid_value = (case t ''resolution_minutes'' of None \<Rightarrow> PNone | Some v \<Rightarrow> v),
      issue_type =
        (if t ''resolution_minutes'' = None \<or> t ''resolution_minutes'' = Some PNone
         then ''Missing'' else ''Wrong Type'')\<rparr>"

subsection \<open>Groups, sums, averages and rates\<close>

text \<open>
  The counted tickets of a category, in input order, and all tickets of a category.
  Categories are compared as dict keys are.
\<close>

definition counted_group :: "pyval \<Rightarrow> ticket list \<Rightarrow> ticket list" where
  "counted_group c tickets = filter (\<lambda>t. counted t \<and> key_eq (category_of t) c) tickets"

definition category_group :: "pyval \<Rightarrow> ticket list \<Rightarrow> ticket list" where
  "category_group c tickets = filter (\<lambda>t. key_eq (category_of t) c) tickets"

definition critical_count :: "ticket list \<Rightarrow> int" where
  "critical_count tickets = int (length (filter is_critical tickets))"

text \<open>
  The sum as the loop builds it: \<^verbatim>\<open>s += x\<close> from left to right, starting from \<open>s\<close>.
\<close>

fun py_sum :: "pyval \<Rightarrow> pyval list \<Rightarrow> error + pyval" where
  "py_sum s [] = Inr s"
| "py_sum s (x # xs) = (case py_add s x of Inl e \<Rightarrow> Inl e | Inr s' \<Rightarrow> py_sum s' xs)"

text \<open>
  \<^verbatim>\<open>round(sum / count, 2)\<close> over the counted tickets of a category, and the rate
  \<^verbatim>\<open>round(critical / total * 100, 2)\<close> of a ticket sequence, \<open>0.0\<close> when it is empty.
\<close>

definition average_for :: "pyval \<Rightarrow> ticket list \<Rightarrow> error + pyval" where
  "average_for c tickets =
     (let grp = counted_group c tickets in
      case py_sum (PInt 0) (map minutes_of grp) of
        Inl e \<Rightarrow> Inl e
      | Inr s \<Rightarrow>
          (case py_truediv s (PInt (int (length grp))) of
             Inl e \<Rightarrow> Inl e
           | Inr q \<Rightarrow> (case round2 q of Inl e \<Rightarrow> Inl e | Inr r \<Rightarrow> Inr (PFloat r))))"

definition rate_for :: "ticket list \<Rightarrow> error + pyfloat" where
  "rate_for tickets =
     (if tickets = [] then Inr (Fin 0)
      else percentage (critical_count tickets) (int (length tickets)))"

text \<open>
  Resolution times for which no float operation can overflow: integers from 0 below
  \<open>2 ^ 53\<close>, and booleans.
\<close>

definition small_minutes :: "ticket \<Rightarrow> bool" where
  "small_minutes t =
     (case minutes_of t of
        PInt i \<Rightarrow> 0 \<le> i \<and> i < 2 ^ 53
      | PBool b \<Rightarrow> True
      | _ \<Rightarrow> False)"

subsection \<open>Loop invariants\<close>

text \<open>
  What \<^verbatim>\<open>temp_stats\<close> holds after the first loop of
  \<open>get_average_resolution_by_category\<close> has run over \<open>ts\<close>: distinct keys, each the category
  of a counted ticket, and for every category the sum and the number of its counted tickets.
  \<open>average_of\<close> is what the second loop stores for one entry.
\<close>

definition stats_inv :: "ticket list \<Rightarrow> stats pydict \<Rightarrow> bool" where
  "stats_inv ts d \<longleftrightarrow>
     distinct (map (key_norm \<circ> fst) d)
     \<and> (\<forall>k \<in> set (map fst d). \<exists>t \<in> set ts. counted t \<and> category_of t = k)
     \<and> (\<forall>c. if counted_group c ts = [] then dict_getitem d c = Inl KeyError
             else \<exists>s. py_sum (PInt 0) (map minutes_of (counted_group c ts)) = Inr s
                    \<and> dict_getitem d c =
                        Inr \<lparr>total_minutes = s, count_tickets = int (length (counted_group c ts))\<rparr>)"

definition average_of :: "stats \<Rightarrow> pyval \<Rightarrow> bool" where
  "average_of data v \<longleftrightarrow>
     (if count_tickets data > 0
      then \<exists>q r. py_truediv (total_minutes data) (PInt (count_tickets data)) = Inr q
                 \<and> round2 q = Inr r \<and> v = PFloat r
      else v = PInt 0)"

text \<open>
  The counters of \<open>get_escalation_rates\<close> after its loop has run over \<open>ts\<close>.
\<close>

definition counters_inv :: "ticket list \<Rightarrow> counters \<Rightarrow> bool" where
  "counters_inv ts c \<longleftrightarrow>
     total_tickets c = int (length ts)
     \<and> total_critical c = critical_count ts
     \<and> distinct (map (key_norm \<circ> fst) (category_counts c))
     \<and> (\<forall>k. if category_group k ts = [] then dict_getitem (category_counts c) k = Inl KeyError
             else dict_getitem (category_counts c) k =
                    Inr \<lparr>total_cat = int (length (category_group k ts)),
                         critical_cat = critical_count (category_group k ts)\<rparr>)"

subsection \<open>Sample inputs\<close>

text \<open>
  Scenarios B, C and D of the specification; a ticket whose resolution time is the integer
  \<open>2 ^ 1024\<close>, too large for a float; and three tickets with a float, a boolean and a null
  resolution time.
\<close>

definition scenario_B :: "ticket list" where
  "scenario_B =
     [[''category'' \<mapsto> PStr ''A'', ''resolution_minutes'' \<mapsto> PInt 10],
      [''category'' \<mapsto> PStr ''A'', ''resolution_minutes'' \<mapsto> PInt 20]]"

definition scenario_C :: "ticket list" where
  "scenario_C =
     [[''priority'' \<mapsto> PStr ''Critical'', ''category'' \<mapsto> PStr ''X''],
      [''priority'' \<mapsto> PStr ''Low'', ''category'' \<mapsto> PStr ''X'']]"

definition scenario_D :: "ticket list" where
  "scenario_D = [[''resolution_minutes'' \<mapsto> PStr ''bad'']]"

definition huge_minutes :: "ticket list" where
  "huge_minutes = [[''resolution_minutes'' \<mapsto> PInt (2 ^ 1024)]]"

definition mixed_tickets :: "ticket list" where
  "mixed_tickets =
     [[''ticket_id'' \<mapsto> PStr ''T1'', ''category'' \<mapsto> PStr ''A'',
       ''resolution_minutes'' \<mapsto> PFloat (Fin (5 / 2))],
      [''category'' \<mapsto> PStr ''A'', ''resolution_minutes'' \<mapsto> PBool True],
      [''ticket_id'' \<mapsto> PStr ''T3'', ''category'' \<mapsto> PStr ''B'',
       ''resolution_minutes'' \<mapsto> PNone]]"

section \<open>Auxiliary facts\<close>

subsection \<open>The validator's loops in closed form\<close>

lemma issubset_iff: "issubset rk t \<longleftrightarrow> set rk \<subseteq> dom t"
  by (auto simp: issubset_def list_all_iff)

lemma validate_keys_loop_eq:
  "validate_keys_loop rk i ts acc =
     acc @ map fst (filter (\<lambda>p. \<not> issubset rk (snd p)) (enumerate i ts))"
  by (induction ts arbitrary: i acc) auto

lemma find_invalid_loop_eq:
  "find_invalid_loop i ts acc =
     acc @ map (\<lambda>(j, t).
         \<lparr>index = j,
          ticket_id = get_default t ''ticket_id'' (PStr ''UNKNOWN''),
          invalid_value = get_field t ''resolution_minutes'',
          issue_type = (if get_field t ''resolution_minutes'' = PNone then ''Missing'' else ''Wrong Type'')\<rparr>)
       (filter (\<lambda>(j, t). get_field t ''resolution_minutes'' = PNone
                         \<or> \<not> isinstance_int (get_field t ''resolution_minutes''))
          (enumerate i ts))"
  by (induction ts arbitrary: i acc) (auto simp: Let_def)

lemma sorted_wrt_map_fst_filter_enumerate:
  "sorted_wrt (<) (map fst (filter P (enumerate i ts)))"
proof -
  have "sorted_wrt (<) (map fst (enumerate i ts))"
    by (simp add: map_fst_enumerate)   
  then show ?thesis
    by (metis sorted_wrt_filter filter_map sorted_wrt_map)
qed

lemma find_invalid_resolutions_eq:
  "find_invalid_resolutions tickets =
     map (\<lambda>(i, t). diagnostic i t) (filter (\<lambda>(i, t). flagged t) (enumerate 0 tickets))"
proof -
  have d: "\<lparr>index = j,
          ticket_id = get_default t ''ticket_id'' (PStr ''UNKNOWN''),
          invalid_value = get_field t ''resolution_minutes'',
          issue_type = (if get_field t ''resolution_minutes'' = PNone then ''Missing'' else ''Wrong Type'')\<rparr>
        = diagnostic j t" for j t
    by (simp add: diagnostic_def get_default_def get_field_def split: option.splits)
  have f: "(get_field t ''resolution_minutes'' = PNone
                         \<or> \<not> isinstance_int (get_field t ''resolution_minutes'')) = flagged t" for t
    by (simp add: flagged_def get_field_def split: option.splits)
  show ?thesis
    by (simp add: find_invalid_resolutions_def find_invalid_loop_eq d f)
qed

subsection \<open>Rounding to a float\<close>

lemma pow2_powi: "pow2 p = 2 powi p"
  by (simp add: pow2_def power_int_def inverse_eq_divide power_one_over)

lemma pow2_pos: "0 < pow2 p"
  by (simp add: pow2_powi)

lemma pow2_less_imp: "pow2 a < pow2 b \<Longrightarrow> a < b"
proof (rule ccontr)
  assume lt: "pow2 a < pow2 b" and "\<not> a < b"
  then have "b \<le> a" by simp
  then have "pow2 b \<le> pow2 a"
    unfolding pow2_powi by (rule power_int_increasing) simp
  with lt show False by simp
qed

lemma pow2_add: "pow2 (a + b) = pow2 a * pow2 b"
  by (simp add: pow2_powi power_int_add)

lemma pow2_nonneg_int: "0 \<le> k \<Longrightarrow> pow2 k = of_int (2 ^ nat k)"
  by (simp add: pow2_def)

lemma round_half_even_le:
  assumes "x \<le> of_int n"
  shows "round_half_even x \<le> n"
proof -
  have f: "\<lfloor>x\<rfloor> \<le> n" using floor_mono[OF assms] by simp
  have "\<lfloor>x\<rfloor> + 1 \<le> n" if "of_int \<lfloor>x\<rfloor> < x"
  proof -
    have "(of_int \<lfloor>x\<rfloor> :: rat) < of_int n" using that assms by (rule less_le_trans)
    then show ?thesis by simp
  qed
  then show ?thesis
    using f unfolding round_half_even_def Let_def by (auto split: if_splits)
qed

lemma round_half_even_nonneg:
  assumes "0 \<le> x"
  shows "0 \<le> round_half_even x"
proof -
  have "0 \<le> \<lfloor>x\<rfloor>" using assms by simp
  then show ?thesis
    unfolding round_half_even_def Let_def by (auto split: if_splits)
qed

lemma round_half_even_of_int: "round_half_even (of_int n) = n"
  by (simp add: round_half_even_def)

lemma ilog2_le:
  assumes "0 < q"
  shows "pow2 (ilog2 q) \<le> q"
proof -
  obtain n d where nd: "quotient_of q = (n, d)" by (cases "quotient_of q")
  have d: "0 < d" using nd by (rule quotient_of_denom_pos)
  have q: "q = of_int n / of_int d" using nd by (rule quotient_of_div)
  have n: "0 < n" using assms d q by (simp add: zero_less_divide_iff)
  define k where "k = bitlen n - bitlen d"
  show ?thesis
  proof (cases "pow2 k \<le> q")
    case True
    then show ?thesis by (simp add: ilog2_def nd k_def Let_def)
  next
    case False
    have e: "ilog2 q = k - 1" using False by (simp add: ilog2_def nd k_def Let_def)
    have bn: "2 ^ nat (bitlen n - 1) \<le> n" using bitlen_bounds[OF n] by simp
    have bd: "d < 2 ^ nat (bitlen d)" using bitlen_bounds[OF d] by simp
    have bn1: "1 \<le> bitlen n" using n by (simp add: bitlen_def floorlog_def)
    have bd0: "0 \<le> bitlen d" by (rule bitlen_nonneg)
    have "k - 1 = (bitlen n - 1) - bitlen d" by (simp add: k_def)
    then have "pow2 (k - 1) = pow2 (bitlen n - 1) / pow2 (bitlen d)"
      unfolding pow2_powi by (simp add: power_int_diff)
    also have "\<dots> = 2 ^ nat (bitlen n - 1) / 2 ^ nat (bitlen d)"
      using bn1 bd0 by (simp add: pow2_def)
    also have "\<dots> \<le> of_int n / of_int d"
    proof (rule frac_le)
      show "(0::rat) \<le> of_int n" using n by simp
      show "(2::rat) ^ nat (bitlen n - 1) \<le> of_int n"
        using bn by (metis of_int_le_iff of_int_numeral of_int_power)
      show "(0::rat) < of_int d" using d by simp
      show "(of_int d :: rat) \<le> 2 ^ nat (bitlen d)"
        using bd by (metis less_imp_le of_int_le_iff of_int_numeral of_int_power)
    qed
    finally show ?thesis using e q by simp
  qed
qed

text \<open>
  Rounding keeps a number between 0 and an integer below \<open>2 ^ 53\<close> between them.
\<close>

lemma round_nearest_bounds:
  assumes "0 \<le> q" and "q \<le> of_int B" and "B < 2 ^ 53"
  shows "0 \<le> round_nearest q \<and> round_nearest q \<le> of_int B"
proof (cases "q = 0")
  case True
  then show ?thesis using assms by (simp add: round_nearest_def)
next
  case False
  then have qpos: "0 < q" using assms by simp
  define p where "p = max (ilog2 \<bar>q\<bar> - 52) (- 1074)"
  have "pow2 (ilog2 q) \<le> q" using qpos by (rule ilog2_le)
  also have "q < pow2 53"
  proof -
    have "(of_int B :: rat) < of_int (2 ^ 53)" using assms(3) by (simp only: of_int_less_iff)
    then show ?thesis using assms(2) by (simp add: pow2_def)
  qed
  finally have "ilog2 q < 53" by (rule pow2_less_imp)
  then have p0: "p \<le> 0" using qpos by (simp add: p_def)
  define k where "k = nat (- p)"
  have pk: "pow2 p = 1 / 2 ^ k"
    using p0 by (cases "p = 0") (simp_all add: pow2_def k_def)
  have rn: "round_nearest q = of_int (round_half_even (q * 2 ^ k)) / 2 ^ k"
    using False by (simp add: round_nearest_def p_def[symmetric] pk Let_def)
  have "q * 2 ^ k \<le> of_int B * 2 ^ k" using assms(2) by simp
  also have "\<dots> = of_int (B * 2 ^ k)" by simp
  finally have up: "round_half_even (q * 2 ^ k) \<le> B * 2 ^ k" by (rule round_half_even_le)
  have lo: "0 \<le> round_half_even (q * 2 ^ k)"
    using assms(1) by (intro round_half_even_nonneg) simp
  have "(of_int (round_half_even (q * 2 ^ k)) :: rat) \<le> of_int (B * 2 ^ k)"
    using up by (simp only: of_int_le_iff)
  then have "(of_int (round_half_even (q * 2 ^ k)) :: rat) / 2 ^ k \<le> of_int B"
    by (simp add: divide_le_eq)
  moreover have "0 \<le> (of_int (round_half_even (q * 2 ^ k)) :: rat) / 2 ^ k"
    using lo by simp
  ultimately show ?thesis using rn by simp
qed

lemma round_double_bounds:
  assumes "0 \<le> q" and "q \<le> of_int B" and "B < 2 ^ 53"
  shows "\<exists>r. round_double q = Fin r \<and> 0 \<le> r \<and> r \<le> of_int B"
proof -
  have b: "0 \<le> round_nearest q \<and> round_nearest q \<le> of_int B"
    using assms by (rule round_nearest_bounds)
  have "(of_int B :: rat) < of_int (2 ^ 53)" using assms(3) by (simp only: of_int_less_iff)
  also have "\<dots> < pow2 1024" by (simp add: pow2_def)
  finally have "round_nearest q < pow2 1024" using b by simp
  moreover have "- pow2 1024 < round_nearest q" using b pow2_pos[of 1024] by linarith
  ultimately show ?thesis using b by (simp add: round_double_def Let_def)
qed

lemma checked_double_bounds:
  assumes "0 \<le> q" and "q \<le> of_int B" and "B < 2 ^ 53"
  shows "\<exists>r. checked_double q = Inr (Fin r) \<and> 0 \<le> r \<and> r \<le> of_int B"
  using round_double_bounds[OF assms] by (auto simp: checked_double_def)

text \<open>
  A number with at most 53 significant bits above the smallest spacing is its own rounding.
\<close>

lemma round_nearest_exact:
  assumes m: "\<bar>m\<bar> < 2 ^ 53" and k: "- 1074 \<le> k"
  shows "round_nearest (of_int m * pow2 k) = of_int m * pow2 k"
proof (cases "m = 0")
  case True
  then show ?thesis by (simp add: round_nearest_def)
next
  case False
  define q where "q = of_int m * pow2 k"
  have q0: "q \<noteq> 0" using False pow2_pos[of k] by (simp add: q_def)
  then have apos: "0 < \<bar>q\<bar>" by simp
  define p where "p = max (ilog2 \<bar>q\<bar> - 52) (- 1074)"
  have "pow2 (ilog2 \<bar>q\<bar>) \<le> \<bar>q\<bar>" using apos by (rule ilog2_le)
  also have "\<bar>q\<bar> < pow2 (53 + k)"
  proof -
    have "(of_int \<bar>m\<bar> :: rat) < of_int (2 ^ 53)" using m by (simp only: of_int_less_iff)
    then have "\<bar>of_int m :: rat\<bar> < pow2 53" by (simp add: pow2_def)
    then have "\<bar>of_int m :: rat\<bar> * pow2 k < pow2 53 * pow2 k"
      using pow2_pos[of k] by (simp only: mult_less_cancel_right_pos)
    moreover have "\<bar>q\<bar> = \<bar>of_int m :: rat\<bar> * pow2 k"
      using pow2_pos[of k] by (simp add: q_def abs_mult)
    ultimately show ?thesis by (simp add: pow2_add)
  qed
  finally have "ilog2 \<bar>q\<bar> < 53 + k" by (rule pow2_less_imp)
  then have pk: "p \<le> k" using k by (simp add: p_def)
  define j where "j = k - p"
  have j0: "0 \<le> j" using pk by (simp add: j_def)
  have kj: "pow2 k = pow2 j * pow2 p" by (simp add: j_def flip: pow2_add)
  have "q / pow2 p = of_int m * pow2 j"
    using pow2_pos[of p] by (simp add: q_def kj)
  also have "\<dots> = of_int (m * 2 ^ nat j)" by (simp add: pow2_nonneg_int[OF j0])
  finally have "round_half_even (q / pow2 p) = m * 2 ^ nat j"
    by (simp only: round_half_even_of_int)
  then have "round_nearest q = of_int (m * 2 ^ nat j) * pow2 p"
    using q0 by (simp add: round_nearest_def p_def[symmetric] Let_def)
  also have "\<dots> = of_int m * pow2 j * pow2 p" by (simp add: pow2_nonneg_int[OF j0])
  also have "\<dots> = q" by (simp add: q_def kj)
  finally show ?thesis by (simp add: q_def)
qed

lemma round_double_exact:
  assumes m: "\<bar>m\<bar> < 2 ^ 53" and k: "- 1074 \<le> k" and k2: "k \<le> 0"
  shows "round_double (of_int m * pow2 k) = Fin (of_int m * pow2 k)"
proof -
  have r: "round_nearest (of_int m * pow2 k) = of_int m * pow2 k"
    using m k by (rule round_nearest_exact)
  have "pow2 k \<le> 1" using k2 by (simp add: pow2_def)
  have "(of_int \<bar>m\<bar> :: rat) < of_int (2 ^ 53)" using m by (simp only: of_int_less_iff)
  then have a: "\<bar>of_int m :: rat\<bar> < 2 ^ 53" by simp
  have "\<bar>of_int m * pow2 k\<bar> = \<bar>of_int m :: rat\<bar> * pow2 k"
    using pow2_pos[of k] by (simp add: abs_mult)
  also have "\<dots> \<le> \<bar>of_int m :: rat\<bar> * 1"
    using \<open>pow2 k \<le> 1\<close> by (intro mult_left_mono) simp_all
  also have "\<dots> < 2 ^ 53" using a by simp
  also have "\<dots> < pow2 1024" by (simp add: pow2_def)
  finally have "\<bar>of_int m * pow2 k\<bar> < pow2 1024" .
  then have "of_int m * pow2 k < pow2 1024" "- pow2 1024 < of_int m * pow2 k"
    by (simp_all add: abs_less_iff)
  then show ?thesis by (simp add: round_double_def r Let_def)
qed

lemma round_double_0: "round_double 0 = Fin 0"
  using pow2_pos[of 1024] by (simp add: round_double_def round_nearest_def)

lemma round_double_2_1024: "round_double (2 ^ 1024) = PosInf"
proof -
  have "round_nearest (of_int 1 * pow2 1024) = of_int 1 * pow2 1024"
    by (rule round_nearest_exact) simp_all
  then have "round_nearest (2 ^ 1024) = pow2 1024" by (simp add: pow2_def)
  then show ?thesis by (simp add: round_double_def Let_def)
qed

lemma checked_double_2_1024: "checked_double (of_int (2 ^ 1024)) = Inl OverflowError"
proof -
  have "(of_int (2 ^ 1024) :: rat) = 2 ^ 1024" by (simp only: of_int_power of_int_numeral)
  then show ?thesis by (simp only: checked_double_def round_double_2_1024 pyfloat.case)
qed

lemma round_double_15: "round_double 15 = Fin 15"
  using round_double_exact[of 15 0] by (simp add: pow2_def)

lemma round_double_50: "round_double 50 = Fin 50"
  using round_double_exact[of 50 0] by (simp add: pow2_def)

lemma round_double_half: "round_double (1 / 2) = Fin (1 / 2)"
  using round_double_exact[of 1 "- 1"] by (simp add: pow2_def)

lemma round_double_5_2: "round_double (5 / 2) = Fin (5 / 2)"
  using round_double_exact[of 5 "- 1"] by (simp add: pow2_def)

lemma round_double_7_2: "round_double (7 / 2) = Fin (7 / 2)"
  using round_double_exact[of 7 "- 1"] by (simp add: pow2_def)

lemma round_double_7_4: "round_double (7 / 4) = Fin (7 / 4)"
  using round_double_exact[of 7 "- 2"] by (simp add: pow2_def)

lemma float_of_int_0: "float_of_int 0 = Inr (Fin 0)"
  by (simp add: float_of_int_def checked_double_def round_double_def round_nearest_def pow2_def)

lemma float_of_int_1: "float_of_int 1 = Inr (Fin 1)"
  using round_double_exact[of 1 0] by (simp add: float_of_int_def checked_double_def pow2_def)

lemma float_of_int_2: "float_of_int 2 = Inr (Fin 2)"
  using round_double_exact[of 2 0] by (simp add: float_of_int_def checked_double_def pow2_def)

lemma float_of_int_100: "float_of_int 100 = Inr (Fin 100)"
  using round_double_exact[of 100 0] by (simp add: float_of_int_def checked_double_def pow2_def)

text \<open>
  A percentage of a part of a whole is a finite float from 0 to 100.
\<close>

lemma percentage_bounds:
  assumes "0 \<le> c" and "c \<le> t" and "0 < t"
  shows "\<exists>x. percentage c t = Inr (Fin x) \<and> 0 \<le> x \<and> x \<le> 100"
proof -
  have "(0::rat) \<le> of_int c / of_int t" using assms by simp
  moreover have "(of_int c :: rat) / of_int t \<le> of_int 1" using assms by simp
  ultimately obtain a where a: "checked_double (of_int c / of_int t) = Inr (Fin a)"
    and a0: "0 \<le> a" and a1: "a \<le> 1"
    using checked_double_bounds[of "of_int c / of_int t" 1] by auto
  have div: "py_truediv (PInt c) (PInt t) = Inr (Fin a)"
    using assms a by (simp add: py_truediv_def)
  have "0 \<le> a * 100" using a0 by simp
  moreover have "a * 100 \<le> of_int 100" using a1 by simp
  ultimately obtain b where b: "round_double (a * 100) = Fin b"
    and b0: "0 \<le> b" and b1: "b \<le> 100"
    using round_double_bounds[of "a * 100" 100] by auto
  have mul: "float_mul_int (Fin a) 100 = Inr (Fin b)"
    by (simp add: float_mul_int_def float_of_int_100 b)
  define m where "m = round_half_even (b * 100)"
  have "b * 100 \<le> of_int 10000" using b1 by simp
  then have m1: "m \<le> 10000" unfolding m_def by (rule round_half_even_le)
  have m0: "0 \<le> m" unfolding m_def using b0 by (intro round_half_even_nonneg) simp
  have "(0::rat) \<le> of_int m / 100" using m0 by simp
  moreover have "(of_int m :: rat) / 100 \<le> of_int 100"
  proof -
    have "(of_int m :: rat) \<le> of_int 10000" using m1 by (simp only: of_int_le_iff)
    then show ?thesis by simp
  qed
  ultimately obtain x where x: "checked_double (of_int m / 100) = Inr (Fin x)"
    and x0: "0 \<le> x" and x1: "x \<le> 100"
    using checked_double_bounds[of "of_int m / 100" 100] by auto
  have "percentage c t = Inr (Fin x)"
    by (simp add: percentage_def div mul x m_def[symmetric])
  then show ?thesis using x0 x1 by blast
qed

subsection \<open>Dicts\<close>

lemma key_eq_refl [simp]: "key_eq k k"
  by (simp add: key_eq_def)

lemma dict_contains_iff: "dict_contains d k \<longleftrightarrow> key_norm k \<in> set (map (key_norm \<circ> fst) d)"
  by (induction d) (auto simp: key_eq_def)

lemma dict_getitem_absent: "\<not> dict_contains d k \<Longrightarrow> dict_getitem d k = Inl KeyError"
  by (induction d) auto

lemma dict_getitem_present: "dict_contains d k \<Longrightarrow> \<exists>v. dict_getitem d k = Inr v"
  by (induction d) auto

lemma dict_getitem_Inr_contains: "dict_getitem d k = Inr v \<Longrightarrow> dict_contains d k"
  by (induction d) (auto split: if_splits)

lemma dict_getitem_setitem:
  "dict_getitem (dict_setitem d k v) k' = (if key_eq k k' then Inr v else dict_getitem d k')"
  by (induction d) (auto simp: key_eq_def)

lemma dict_setitem_absent: "\<not> dict_contains d k \<Longrightarrow> dict_setitem d k v = d @ [(k, v)]"
  by (induction d) auto

lemma keys_setitem_present: "dict_contains d k \<Longrightarrow> map fst (dict_setitem d k v) = map fst d"
  by (induction d) auto

lemma keys_setitem:
  "map fst (dict_setitem d k v) = (if dict_contains d k then map fst d else map fst d @ [k])"
  by (simp add: keys_setitem_present dict_setitem_absent)

lemma dict_getitem_mem:
  "distinct (map (key_norm \<circ> fst) d) \<Longrightarrow> (k, v) \<in> set d \<Longrightarrow> dict_getitem d k = Inr v"
  by (induction d) (auto simp: key_eq_def image_iff)

lemma dict_getitem_key_eq: "key_eq a b \<Longrightarrow> dict_getitem d a = dict_getitem d b"
  by (induction d) (auto simp: key_eq_def)

lemma dict_contains_keys:
  "map fst d = map fst d' \<Longrightarrow> dict_contains d k \<longleftrightarrow> dict_contains d' k"
  by (metis dict_contains_iff map_map)

lemma dict_contains_mem:
  "dict_contains d c \<Longrightarrow> \<exists>k v. (k, v) \<in> set d \<and> key_eq k c"
proof (induction d)
  case Nil
  then show ?case by simp
next
  case (Cons p d)
  obtain k' v' where p: "p = (k', v')" by (cases p)
  show ?case
  proof (cases "key_eq k' c")
    case True
    then show ?thesis using p by auto
  next
    case False
    then have "dict_contains d c" using Cons.prems p by simp
    then obtain k v where "(k, v) \<in> set d" "key_eq k c" using Cons.IH by blast
    then show ?thesis by auto
  qed
qed

subsection \<open>The loops of get_average_resolution_by_category\<close>

lemma py_sum_snoc:
  "py_sum s (xs @ [x]) = (case py_sum s xs of Inl e \<Rightarrow> Inl e | Inr s' \<Rightarrow> py_add s' x)"
  by (induction xs arbitrary: s) (auto split: sum.splits)

lemma py_sum_prefix:
  "py_sum s (xs @ [x]) = Inr r \<Longrightarrow> \<exists>r'. py_sum s xs = Inr r' \<and> py_add r' x = Inr r"
  by (simp add: py_sum_snoc split: sum.splits)

lemma average_loop_snoc:
  "average_loop d (ts @ [t]) = (case average_loop d ts of Inl e \<Rightarrow> Inl e | Inr d' \<Rightarrow> average_step d' t)"
  by (induction ts arbitrary: d) (auto split: sum.splits)

lemma counted_group_snoc:
  "counted_group c (ts @ [t]) =
     counted_group c ts @ (if counted t \<and> key_eq (category_of t) c then [t] else [])"
  by (simp add: counted_group_def)

lemma counted_group_key_eq: "key_eq a b \<Longrightarrow> counted_group a ts = counted_group b ts"
  by (auto simp: counted_group_def key_eq_def intro: filter_cong)

lemma get_default_category: "get_default t ''category'' (PStr ''Unknown'') = category_of t"
  by (simp add: get_default_def category_of_def)

lemma get_default_minutes: "get_default t ''resolution_minutes'' (PInt 0) = minutes_of t"
  by (simp add: get_default_def minutes_of_def)

lemma counted_iff: "counted t \<longleftrightarrow> isinstance_int_float (minutes_of t)"
  by (simp add: counted_def minutes_of_def split: option.splits)

lemma stats_inv_Nil: "stats_inv [] []"
  by (simp add: stats_inv_def counted_group_def)

lemma stats_inv_step:
  assumes inv: "stats_inv ts d" and step: "average_step d t = Inr d'"
  shows "stats_inv (ts @ [t]) d'"
proof (cases "counted t")
  case False
  then have "d' = d"
    using step by (simp add: average_step_def get_default_minutes counted_iff Let_def)
  moreover have "counted_group c (ts @ [t]) = counted_group c ts" for c
    using False by (simp add: counted_group_snoc)
  ultimately show ?thesis using inv by (auto simp: stats_inv_def)
next
  case True
  define cat where "cat = category_of t"
  define d1 where "d1 = (if \<not> dict_contains d cat
               then dict_setitem d cat \<lparr>total_minutes = PInt 0, count_tickets = 0\<rparr>
               else d)"
  have dist: "distinct (map (key_norm \<circ> fst) d)" using inv by (simp add: stats_inv_def)
  have keys: "\<forall>k \<in> set (map fst d). \<exists>t \<in> set ts. counted t \<and> category_of t = k"
    using inv by (simp add: stats_inv_def)
  have look: "if counted_group c ts = [] then dict_getitem d c = Inl KeyError
             else \<exists>s. py_sum (PInt 0) (map minutes_of (counted_group c ts)) = Inr s
                    \<and> dict_getitem d c =
                        Inr \<lparr>total_minutes = s, count_tickets = int (length (counted_group c ts))\<rparr>" for c
    using inv by (simp add: stats_inv_def)
  have contains: "dict_contains d c \<longleftrightarrow> counted_group c ts \<noteq> []" for c
    using look[of c] dict_getitem_present[of d c] dict_getitem_absent[of d c]
    by (cases "dict_contains d c") (auto split: if_splits)
  obtain data where data: "dict_getitem d1 cat = Inr data"
    using dict_getitem_present[of d cat]
    by (cases "dict_contains d cat") (auto simp: d1_def dict_getitem_setitem)
  obtain s where s: "py_add (total_minutes data) (minutes_of t) = Inr s"
    and d': "d' = dict_setitem d1 cat \<lparr>total_minutes = s, count_tickets = count_tickets data + 1\<rparr>"
    using step True data
    by (auto simp: average_step_def get_default_minutes get_default_category counted_iff Let_def
          cat_def[symmetric] d1_def[symmetric] split: sum.splits)
  have d1c: "dict_contains d1 cat"
    using data by (rule dict_getitem_Inr_contains)
  have keys1: "map fst d1 = (if dict_contains d cat then map fst d else map fst d @ [cat])"
    by (simp add: d1_def keys_setitem)
  have keys': "map fst d' = map fst d1"
    using d1c by (simp add: d' keys_setitem_present)
  have dist': "distinct (map (key_norm \<circ> fst) d')"
  proof -
    have "map (key_norm \<circ> fst) d' = map key_norm (map fst d')" by simp
    also have "\<dots> = (if dict_contains d cat then map (key_norm \<circ> fst) d
                      else map (key_norm \<circ> fst) d @ [key_norm cat])"
      by (simp add: keys' keys1)
    finally show ?thesis using dist by (auto simp: dict_contains_iff)
  qed
  have keysP: "\<forall>k \<in> set (map fst d'). \<exists>t' \<in> set (ts @ [t]). counted t' \<and> category_of t' = k"
    using keys True by (auto simp: keys' keys1 cat_def split: if_splits)
  have lookP: "if counted_group c (ts @ [t]) = [] then dict_getitem d' c = Inl KeyError
             else \<exists>s. py_sum (PInt 0) (map minutes_of (counted_group c (ts @ [t]))) = Inr s
                    \<and> dict_getitem d' c =
                        Inr \<lparr>total_minutes = s, count_tickets = int (length (counted_group c (ts @ [t])))\<rparr>" for c
  proof (cases "key_eq cat c")
    case False
    then have g: "counted_group c (ts @ [t]) = counted_group c ts"
      by (simp add: counted_group_snoc cat_def)
    have "dict_getitem d' c = dict_getitem d c"
      using False by (simp add: d' d1_def dict_getitem_setitem)
    then show ?thesis using look[of c] g by simp
  next
    case eq: True
    have gc: "counted_group c ts = counted_group cat ts"
      using eq by (auto simp: counted_group_def key_eq_def intro: filter_cong)
    have g: "counted_group c (ts @ [t]) = counted_group cat ts @ [t]"
      using eq True by (simp add: counted_group_snoc cat_def[symmetric] gc)
    have get': "dict_getitem d' c = Inr \<lparr>total_minutes = s, count_tickets = count_tickets data + 1\<rparr>"
      using eq by (simp add: d' dict_getitem_setitem)
    have "py_sum (PInt 0) (map minutes_of (counted_group cat ts)) = Inr (total_minutes data)
          \<and> count_tickets data = int (length (counted_group cat ts))"
    proof (cases "dict_contains d cat")
      case True
      then have "d1 = d" by (simp add: d1_def)
      then show ?thesis using look[of cat] contains[of cat] True data by auto
    next
      case False
      then have "data = \<lparr>total_minutes = PInt 0, count_tickets = 0\<rparr>"
        using data by (simp add: d1_def dict_getitem_setitem)
      moreover have "counted_group cat ts = []" using contains[of cat] False by simp
      ultimately show ?thesis by simp
    qed
    then show ?thesis
      using s by (simp add: g get' py_sum_snoc)
  qed
  show ?thesis
    unfolding stats_inv_def using dist' keysP lookP by blast
qed

lemma average_loop_inv: "average_loop [] ts = Inr d \<Longrightarrow> stats_inv ts d"
proof (induction ts arbitrary: d rule: rev_induct)
  case Nil
  then show ?case by (simp add: stats_inv_Nil)
next
  case (snoc t ts)
  then show ?case
    by (auto simp: average_loop_snoc split: sum.splits intro: stats_inv_step)
qed

lemma stats_inv_entry:
  assumes "stats_inv ts d" and "(c, data) \<in> set d"
  shows "counted_group c ts \<noteq> []
         \<and> py_sum (PInt 0) (map minutes_of (counted_group c ts)) = Inr (total_minutes data)
         \<and> count_tickets data = int (length (counted_group c ts))"
proof -
  have get: "dict_getitem d c = Inr data"
    using assms by (intro dict_getitem_mem) (simp_all add: stats_inv_def)
  have "if counted_group c ts = [] then dict_getitem d c = Inl KeyError
             else \<exists>s. py_sum (PInt 0) (map minutes_of (counted_group c ts)) = Inr s
                    \<and> dict_getitem d c =
                        Inr \<lparr>total_minutes = s, count_tickets = int (length (counted_group c ts))\<rparr>"
    using assms(1) by (simp add: stats_inv_def)
  then show ?thesis using get by (auto split: if_splits)
qed

lemma stats_inv_contains:
  assumes "stats_inv ts d"
  shows "dict_contains d c \<longleftrightarrow> counted_group c ts \<noteq> []"
proof -
  have "if counted_group c ts = [] then dict_getitem d c = Inl KeyError
             else \<exists>s. py_sum (PInt 0) (map minutes_of (counted_group c ts)) = Inr s
                    \<and> dict_getitem d c =
                        Inr \<lparr>total_minutes = s, count_tickets = int (length (counted_group c ts))\<rparr>"
    using assms by (simp add: stats_inv_def)
  then show ?thesis
    using dict_getitem_present[of d c] dict_getitem_absent[of d c]
    by (cases "dict_contains d c") (auto split: if_splits)
qed

lemma averages_loop_entries:
  assumes "averages_loop acc items = Inr out"
    and "distinct (map key_norm (map fst acc @ map fst items))"
  shows "map fst out = map fst acc @ map fst items
         \<and> (\<forall>c v. (c, v) \<in> set out \<longrightarrow>
               (c, v) \<in> set acc \<or> (\<exists>data. (c, data) \<in> set items \<and> average_of data v))"
  using assms
proof (induction items arbitrary: acc)
  case Nil
  then show ?case by simp
next
  case (Cons item items)
  obtain cat data where item: "item = (cat, data)" by (cases item)
  have absent: "\<not> dict_contains acc cat"
    using Cons.prems(2) by (auto simp: item dict_contains_iff)
  obtain v where v: "average_of data v"
    and rest: "averages_loop (dict_setitem acc cat v) items = Inr out"
    using Cons.prems(1) unfolding item
    by (auto simp: average_of_def split: if_splits sum.splits)
  have set: "dict_setitem acc cat v = acc @ [(cat, v)]"
    using absent by (rule dict_setitem_absent)
  have dist: "distinct (map key_norm (map fst (acc @ [(cat, v)]) @ map fst items))"
    using Cons.prems(2) by (simp add: item)
  have IH: "map fst out = map fst (acc @ [(cat, v)]) @ map fst items
         \<and> (\<forall>c w. (c, w) \<in> set out \<longrightarrow>
               (c, w) \<in> set (acc @ [(cat, v)]) \<or> (\<exists>data. (c, data) \<in> set items \<and> average_of data w))"
    using Cons.IH[OF rest[unfolded set] dist] .
  show ?case
  proof (intro conjI allI impI)
    show "map fst out = map fst acc @ map fst (item # items)"
      using IH by (simp add: item)
  next
    fix c w assume "(c, w) \<in> set out"
    then have "(c, w) \<in> set (acc @ [(cat, v)]) \<or> (\<exists>data. (c, data) \<in> set items \<and> average_of data w)"
      using IH by blast
    then show "(c, w) \<in> set acc \<or> (\<exists>data. (c, data) \<in> set (item # items) \<and> average_of data w)"
      using v by (auto simp: item)
  qed
qed

text \<open>
  What the two loops leave: the result has the keys of \<^verbatim>\<open>temp_stats\<close>, each with its
  average.
\<close>

lemma get_average_result:
  assumes "get_average_resolution_by_category tickets = Inr avgs"
  shows "\<exists>d. average_loop [] tickets = Inr d \<and> stats_inv tickets d
           \<and> map fst avgs = map fst d
           \<and> (\<forall>c v. (c, v) \<in> set avgs \<longrightarrow> (\<exists>data. (c, data) \<in> set d \<and> average_of data v))"
proof -
  obtain d where d: "average_loop [] tickets = Inr d" and out: "averages_loop [] d = Inr avgs"
    using assms by (auto simp: get_average_resolution_by_category_def split: sum.splits)
  have inv: "stats_inv tickets d" using d by (rule average_loop_inv)
  then have "distinct (map key_norm (map fst ([] :: pyval pydict) @ map fst d))"
    by (simp add: stats_inv_def)
  from averages_loop_entries[OF out this] show ?thesis using d inv by auto
qed

lemma get_average_lookup:
  assumes "get_average_resolution_by_category tickets = Inr avgs"
  shows "distinct (map key_norm (map fst avgs))
         \<and> (\<forall>c. dict_getitem avgs c =
                  (if counted_group c tickets = [] then Inl KeyError
                   else average_for c tickets))"
proof -
  obtain d where inv: "stats_inv tickets d" and keys: "map fst avgs = map fst d"
    and ent: "\<forall>c v. (c, v) \<in> set avgs \<longrightarrow> (\<exists>data. (c, data) \<in> set d \<and> average_of data v)"
    using get_average_result[OF assms(1)] by blast
  have dist: "distinct (map key_norm (map fst avgs))"
    using inv by (simp add: stats_inv_def keys)
  have look: "dict_getitem avgs c =
                  (if counted_group c tickets = [] then Inl KeyError else average_for c tickets)" for c
  proof (cases "dict_contains avgs c")
    case False
    then have "\<not> dict_contains d c" using dict_contains_keys[OF keys] by simp
    then have "counted_group c tickets = []" using stats_inv_contains[OF inv] by simp
    then show ?thesis using False by (simp add: dict_getitem_absent)
  next
    case True
    then obtain k v where kv: "(k, v) \<in> set avgs" and kc: "key_eq k c"
      using dict_contains_mem by blast
    obtain data where data: "(k, data) \<in> set d" and av: "average_of data v"
      using ent kv by blast
    have e: "counted_group k tickets \<noteq> []
         \<and> py_sum (PInt 0) (map minutes_of (counted_group k tickets)) = Inr (total_minutes data)
         \<and> count_tickets data = int (length (counted_group k tickets))"
      using inv data by (rule stats_inv_entry)
    then have pos: "count_tickets data > 0" by simp
    have "average_for k tickets = Inr v"
      using av pos e by (auto simp: average_of_def average_for_def Let_def)
    moreover have "dict_getitem avgs k = Inr v"
      using dist kv by (intro dict_getitem_mem) simp_all
    ultimately show ?thesis
      using e dict_getitem_key_eq[OF kc, of avgs] counted_group_key_eq[OF kc, of tickets]
      by (simp add: average_for_def)
  qed
  show ?thesis using dist look by blast
qed

text \<open>
  The function returns once every sum, quotient and rounding it needs can be computed.
\<close>

lemma average_step_returns:
  assumes inv: "stats_inv ts d"
    and sum: "counted t \<Longrightarrow>
      \<exists>s. py_sum (PInt 0) (map minutes_of (counted_group (category_of t) (ts @ [t]))) = Inr s"
  shows "\<exists>d'. average_step d t = Inr d'"
proof (cases "counted t")
  case False
  then show ?thesis
    by (simp add: average_step_def get_default_minutes counted_iff Let_def)
next
  case True
  define cat where "cat = category_of t"
  define d1 where "d1 = (if \<not> dict_contains d cat
               then dict_setitem d cat \<lparr>total_minutes = PInt 0, count_tickets = 0\<rparr>
               else d)"
  have contains: "dict_contains d cat \<longleftrightarrow> counted_group cat ts \<noteq> []"
    using inv by (rule stats_inv_contains)
  obtain data where data: "dict_getitem d1 cat = Inr data"
    using dict_getitem_present[of d cat]
    by (cases "dict_contains d cat") (auto simp: d1_def dict_getitem_setitem)
  have tot: "py_sum (PInt 0) (map minutes_of (counted_group cat ts)) = Inr (total_minutes data)"
  proof (cases "dict_contains d cat")
    case True
    then obtain k v where kv: "(k, v) \<in> set d" and kc: "key_eq k cat"
      using dict_contains_mem by blast
    have "dict_getitem d k = Inr v"
      using inv kv by (intro dict_getitem_mem) (simp_all add: stats_inv_def)
    then have "v = data"
      using data True dict_getitem_key_eq[OF kc, of d] by (simp add: d1_def)
    then show ?thesis
      using stats_inv_entry[OF inv kv] counted_group_key_eq[OF kc, of ts] by simp
  next
    case False
    then have "data = \<lparr>total_minutes = PInt 0, count_tickets = 0\<rparr>"
      using data by (simp add: d1_def dict_getitem_setitem)
    moreover have "counted_group cat ts = []" using contains False by simp
    ultimately show ?thesis by simp
  qed
  obtain s where "py_sum (PInt 0) (map minutes_of (counted_group cat ts @ [t])) = Inr s"
    using sum[OF True] True by (auto simp: counted_group_snoc cat_def)
  then obtain s where s: "py_add (total_minutes data) (minutes_of t) = Inr s"
    using tot by (auto simp: py_sum_snoc)
  show ?thesis
    using True data s
    by (simp add: average_step_def get_default_minutes get_default_category counted_iff Let_def
          cat_def[symmetric] d1_def[symmetric])
qed

lemma average_loop_returns:
  assumes "\<forall>c. \<exists>s. py_sum (PInt 0) (map minutes_of (counted_group c ts)) = Inr s"
  shows "\<exists>d. average_loop [] ts = Inr d"
  using assms
proof (induction ts rule: rev_induct)
  case Nil
  then show ?case by simp
next
  case (snoc t ts)
  have pre: "\<exists>s. py_sum (PInt 0) (map minutes_of (counted_group c ts)) = Inr s" for c
  proof -
    obtain s where s: "py_sum (PInt 0) (map minutes_of (counted_group c (ts @ [t]))) = Inr s"
      using snoc.prems by blast
    show ?thesis
    proof (cases "counted t \<and> key_eq (category_of t) c")
      case True
      then show ?thesis using s py_sum_prefix by (fastforce simp: counted_group_snoc)
    next
      case False
      then show ?thesis using s by (auto simp: counted_group_snoc)
    qed
  qed
  then obtain d where d: "average_loop [] ts = Inr d" using snoc.IH by blast
  have inv: "stats_inv ts d" using d by (rule average_loop_inv)
  obtain d' where "average_step d t = Inr d'"
    using average_step_returns[OF inv, of t] snoc.prems by blast
  then show ?case by (simp add: average_loop_snoc d)
qed

lemma averages_loop_returns:
  assumes "\<forall>(c, data) \<in> set items. \<exists>v. average_of data v"
  shows "\<exists>out. averages_loop acc items = Inr out"
  using assms
proof (induction items arbitrary: acc)
  case Nil
  then show ?case by simp
next
  case (Cons item items)
  obtain cat data where item: "item = (cat, data)" by (cases item)
  obtain v where v: "average_of data v" using Cons.prems by (auto simp: item)
  have rest: "\<forall>(c, data) \<in> set items. \<exists>v. average_of data v" using Cons.prems by simp
  show ?case
  proof (cases "count_tickets data > 0")
    case True
    then obtain q r where "py_truediv (total_minutes data) (PInt (count_tickets data)) = Inr q"
      "round2 q = Inr r"
      using v by (auto simp: average_of_def)
    then show ?thesis using True Cons.IH[OF rest] by (simp add: item)
  next
    case False
    then show ?thesis using Cons.IH[OF rest] by (simp add: item)
  qed
qed

lemma average_for_Inr:
  assumes "average_for c tickets = Inr v"
  shows "\<exists>s q r. py_sum (PInt 0) (map minutes_of (counted_group c tickets)) = Inr s
               \<and> py_truediv s (PInt (int (length (counted_group c tickets)))) = Inr q
               \<and> round2 q = Inr r \<and> v = PFloat r"
  using assms by (auto simp: average_for_def Let_def split: sum.splits)

lemma get_average_returns:
  assumes "\<forall>c. counted_group c tickets \<noteq> [] \<longrightarrow> (\<exists>v. average_for c tickets = Inr v)"
  shows "\<exists>avgs. get_average_resolution_by_category tickets = Inr avgs"
proof -
  have "\<exists>s. py_sum (PInt 0) (map minutes_of (counted_group c tickets)) = Inr s" for c
  proof (cases "counted_group c tickets = []")
    case True
    then show ?thesis by simp
  next
    case False
    then obtain v where "average_for c tickets = Inr v" using assms by blast
    then show ?thesis using average_for_Inr by blast
  qed
  then obtain d where d: "average_loop [] tickets = Inr d"
    using average_loop_returns by blast
  have inv: "stats_inv tickets d" using d by (rule average_loop_inv)
  have "\<forall>(c, data) \<in> set d. \<exists>v. average_of data v"
  proof (clarify)
    fix c data assume m: "(c, data) \<in> set d"
    have e: "counted_group c tickets \<noteq> []
         \<and> py_sum (PInt 0) (map minutes_of (counted_group c tickets)) = Inr (total_minutes data)
         \<and> count_tickets data = int (length (counted_group c tickets))"
      using inv m by (rule stats_inv_entry)
    then obtain v where "average_for c tickets = Inr v" using assms by blast
    from average_for_Inr[OF this] e show "\<exists>v. average_of data v"
      by (auto simp: average_of_def)
  qed
  then obtain out where "averages_loop [] d = Inr out"
    using averages_loop_returns by blast
  then show ?thesis by (simp add: get_average_resolution_by_category_def d)
qed

lemma small_minutes_num:
  assumes "small_minutes t"
  shows "\<exists>i. num_of (minutes_of t) = Some (NInt i) \<and> 0 \<le> i \<and> i < 2 ^ 53"
  using assms by (cases "minutes_of t") (auto simp: small_minutes_def)

lemma py_sum_small:
  assumes "\<forall>t \<in> set g. small_minutes t"
  shows "\<exists>n. py_sum (PInt a) (map minutes_of g) = Inr (PInt (a + n))
             \<and> 0 \<le> n \<and> n \<le> int (length g) * (2 ^ 53 - 1)"
  using assms
proof (induction g arbitrary: a)
  case Nil
  then show ?case by simp
next
  case (Cons t g)
  obtain i where i: "num_of (minutes_of t) = Some (NInt i)" "0 \<le> i" "i < 2 ^ 53"
    using small_minutes_num[of t] Cons.prems by auto
  have add: "py_add (PInt a) (minutes_of t) = Inr (PInt (a + i))"
    using i(1) by (simp add: py_add_def)
  obtain n where n: "py_sum (PInt (a + i)) (map minutes_of g) = Inr (PInt (a + i + n))"
    "0 \<le> n" "n \<le> int (length g) * (2 ^ 53 - 1)"
    using Cons.IH[of "a + i"] Cons.prems by auto
  have "py_sum (PInt a) (map minutes_of (t # g)) = Inr (PInt (a + (i + n)))"
    using add n(1) by (simp add: add.assoc)
  moreover have "0 \<le> i + n" using i(2) n(2) by simp
  moreover have "i + n \<le> int (length (t # g)) * (2 ^ 53 - 1)"
    using i(3) n(3) by (simp add: algebra_simps)
  ultimately show ?case by blast
qed

lemma average_for_small:
  assumes small: "\<forall>t \<in> set tickets. counted t \<longrightarrow> small_minutes t"
    and ne: "counted_group c tickets \<noteq> []"
  shows "\<exists>v. average_for c tickets = Inr v"
proof -
  define g where "g = counted_group c tickets"
  define B :: int where "B = 2 ^ 53 - 1"
  have "\<forall>t \<in> set g. small_minutes t"
    using small by (auto simp: g_def counted_group_def)
  then obtain n where sum: "py_sum (PInt 0) (map minutes_of g) = Inr (PInt n)"
    and n0: "0 \<le> n" and n1: "n \<le> int (length g) * B"
    using py_sum_small[of g 0] by (auto simp: B_def)
  have len: "0 < int (length g)" using ne by (simp add: g_def)
  have "(of_int n :: rat) \<le> of_int (int (length g) * B)" using n1 by (simp only: of_int_le_iff)
  then have "(of_int n :: rat) / of_int (int (length g)) \<le> of_int B"
    using len by (simp add: divide_le_eq mult.commute)
  moreover have "(0::rat) \<le> of_int n / of_int (int (length g))" using n0 by simp
  moreover have B53: "B < 2 ^ 53" by (simp add: B_def)
  ultimately obtain r where r: "checked_double (of_int n / of_int (int (length g))) = Inr (Fin r)"
    and r0: "0 \<le> r" and r1: "r \<le> of_int B"
    using checked_double_bounds by blast
  have div: "py_truediv (PInt n) (PInt (int (length g))) = Inr (Fin r)"
    using len r by (simp add: py_truediv_def)
  define m where "m = round_half_even (r * 100)"
  have "r * 100 \<le> of_int (B * 100)" using r1 by simp
  then have m1: "m \<le> B * 100" unfolding m_def by (rule round_half_even_le)
  have m0: "0 \<le> m" unfolding m_def using r0 by (intro round_half_even_nonneg) simp
  have "(of_int m :: rat) \<le> of_int (B * 100)" using m1 by (simp only: of_int_le_iff)
  then have "(of_int m :: rat) / 100 \<le> of_int B" by simp
  moreover have "(0::rat) \<le> of_int m / 100" using m0 by simp
  ultimately obtain x where "checked_double (of_int m / 100) = Inr (Fin x)"
    using checked_double_bounds[OF _ _ B53] by blast
  then have "round2 (Fin r) = Inr (Fin x)" by (simp add: m_def)
  then show ?thesis
    using sum div by (simp add: average_for_def g_def[symmetric])
qed

subsection \<open>The loops of get_escalation_rates\<close>

lemma escalation_loop_snoc:
  "escalation_loop c (ts @ [t]) =
     (case escalation_loop c ts of Inl e \<Rightarrow> Inl e | Inr c' \<Rightarrow> escalation_step c' t)"
  by (induction ts arbitrary: c) (auto split: sum.splits)

lemma category_group_snoc:
  "category_group k (ts @ [t]) =
     category_group k ts @ (if key_eq (category_of t) k then [t] else [])"
  by (simp add: category_group_def)

lemma category_group_key_eq: "key_eq a b \<Longrightarrow> category_group a ts = category_group b ts"
  by (auto simp: category_group_def key_eq_def intro: filter_cong)

lemma critical_count_snoc:
  "critical_count (ts @ [t]) = critical_count ts + (if is_critical t then 1 else 0)"
  by (simp add: critical_count_def)

lemma critical_count_bounds: "0 \<le> critical_count ts \<and> critical_count ts \<le> int (length ts)"
  by (simp add: critical_count_def)

lemma is_critical_iff:
  "is_critical t \<longleftrightarrow> get_default t ''priority'' (PStr ''Low'') = PStr ''Critical''"
  by (simp add: is_critical_def get_default_def split: option.splits)

lemma counters_inv_step:
  assumes inv: "counters_inv ts c"
  shows "\<exists>c'. escalation_step c t = Inr c' \<and> counters_inv (ts @ [t]) c'"
proof -
  define cat where "cat = category_of t"
  define crit :: int where "crit = (if is_critical t then 1 else 0)"
  define d where "d = category_counts c"
  define d1 where "d1 = (if \<not> dict_contains d cat
               then dict_setitem d cat \<lparr>total_cat = 0, critical_cat = 0\<rparr>
               else d)"
  have dist: "distinct (map (key_norm \<circ> fst) d)" using inv by (simp add: counters_inv_def d_def)
  have look: "if category_group k ts = [] then dict_getitem d k = Inl KeyError
             else dict_getitem d k =
                    Inr \<lparr>total_cat = int (length (category_group k ts)),
                         critical_cat = critical_count (category_group k ts)\<rparr>" for k
    using inv by (simp add: counters_inv_def d_def)
  have contains: "dict_contains d k \<longleftrightarrow> category_group k ts \<noteq> []" for k
    using look[of k] dict_getitem_present[of d k] dict_getitem_absent[of d k]
    by (cases "dict_contains d k") (auto split: if_splits)
  obtain data where data: "dict_getitem d1 cat = Inr data"
    using dict_getitem_present[of d cat]
    by (cases "dict_contains d cat") (auto simp: d1_def dict_getitem_setitem)
  define c' where "c' = \<lparr>category_counts =
                 dict_setitem d1 cat
                   \<lparr>total_cat = total_cat data + 1, critical_cat = critical_cat data + crit\<rparr>,
               total_tickets = total_tickets c + 1,
               total_critical = total_critical c + crit\<rparr>"
  have step: "escalation_step c t = Inr c'"
    using data unfolding c'_def d1_def d_def crit_def cat_def
    by (cases "dict_contains (category_counts c) (category_of t)")
       (simp_all add: escalation_step_def get_default_category Let_def is_critical_iff[symmetric])
  have d1c: "dict_contains d1 cat" using data by (rule dict_getitem_Inr_contains)
  have keys1: "map fst d1 = (if dict_contains d cat then map fst d else map fst d @ [cat])"
    by (simp add: d1_def keys_setitem)
  have keys': "map fst (category_counts c') = map fst d1"
    using d1c by (simp add: c'_def keys_setitem_present)
  have dist': "distinct (map (key_norm \<circ> fst) (category_counts c'))"
  proof -
    have "map (key_norm \<circ> fst) (category_counts c') = map key_norm (map fst (category_counts c'))"
      by simp
    also have "\<dots> = (if dict_contains d cat then map (key_norm \<circ> fst) d
                      else map (key_norm \<circ> fst) d @ [key_norm cat])"
      by (simp add: keys' keys1)
    finally show ?thesis using dist by (auto simp: dict_contains_iff)
  qed
  have dataP: "total_cat data = int (length (category_group cat ts))
        \<and> critical_cat data = critical_count (category_group cat ts)"
  proof (cases "dict_contains d cat")
    case True
    then have "d1 = d" by (simp add: d1_def)
    then show ?thesis using look[of cat] contains[of cat] True data by auto
  next
    case False
    then have "data = \<lparr>total_cat = 0, critical_cat = 0\<rparr>"
      using data by (simp add: d1_def dict_getitem_setitem)
    moreover have "category_group cat ts = []" using contains[of cat] False by simp
    ultimately show ?thesis by (simp add: critical_count_def)
  qed
  have lookP: "if category_group k (ts @ [t]) = []
             then dict_getitem (category_counts c') k = Inl KeyError
             else dict_getitem (category_counts c') k =
                    Inr \<lparr>total_cat = int (length (category_group k (ts @ [t]))),
                         critical_cat = critical_count (category_group k (ts @ [t]))\<rparr>" for k
  proof (cases "key_eq cat k")
    case False
    then have g: "category_group k (ts @ [t]) = category_group k ts"
      by (simp add: category_group_snoc cat_def)
    have "dict_getitem (category_counts c') k = dict_getitem d k"
      using False by (simp add: c'_def d1_def dict_getitem_setitem)
    then show ?thesis using look[of k] g by simp
  next
    case eq: True
    have gc: "category_group k ts = category_group cat ts"
      using eq by (auto simp: category_group_def key_eq_def intro: filter_cong)
    have g: "category_group k (ts @ [t]) = category_group cat ts @ [t]"
      using eq by (simp add: category_group_snoc cat_def[symmetric] gc)
    have "dict_getitem (category_counts c') k =
            Inr \<lparr>total_cat = total_cat data + 1, critical_cat = critical_cat data + crit\<rparr>"
      using eq by (simp add: c'_def dict_getitem_setitem)
    then show ?thesis
      using dataP by (simp add: g critical_count_snoc crit_def)
  qed
  have "counters_inv (ts @ [t]) c'"
    unfolding counters_inv_def
  proof (intro conjI allI)
    show "total_tickets c' = int (length (ts @ [t]))"
      using inv by (simp add: c'_def counters_inv_def)
    show "total_critical c' = critical_count (ts @ [t])"
      using inv by (simp add: c'_def counters_inv_def critical_count_snoc crit_def)
    show "distinct (map (key_norm \<circ> fst) (category_counts c'))" by (rule dist')
    show "if category_group k (ts @ [t]) = []
             then dict_getitem (category_counts c') k = Inl KeyError
             else dict_getitem (category_counts c') k =
                    Inr \<lparr>total_cat = int (length (category_group k (ts @ [t]))),
                         critical_cat = critical_count (category_group k (ts @ [t]))\<rparr>" for k
      by (rule lookP)
  qed
  then show ?thesis using step by blast
qed

lemma escalation_loop_inv:
  "\<exists>c. escalation_loop \<lparr>category_counts = [], total_tickets = 0, total_critical = 0\<rparr> ts = Inr c
       \<and> counters_inv ts c"
proof (induction ts rule: rev_induct)
  case Nil
  show ?case by (simp add: counters_inv_def category_group_def critical_count_def)
next
  case (snoc t ts)
  then obtain c where c: "escalation_loop \<lparr>category_counts = [], total_tickets = 0, total_critical = 0\<rparr> ts = Inr c"
    and inv: "counters_inv ts c" by blast
  from counters_inv_step[OF inv, of t] show ?case
    by (auto simp: escalation_loop_snoc c)
qed

lemma counters_inv_contains:
  assumes "counters_inv ts c"
  shows "dict_contains (category_counts c) k \<longleftrightarrow> category_group k ts \<noteq> []"
proof -
  have "if category_group k ts = [] then dict_getitem (category_counts c) k = Inl KeyError
             else dict_getitem (category_counts c) k =
                    Inr \<lparr>total_cat = int (length (category_group k ts)),
                         critical_cat = critical_count (category_group k ts)\<rparr>"
    using assms by (simp add: counters_inv_def)
  then show ?thesis
    using dict_getitem_present[of "category_counts c" k] dict_getitem_absent[of "category_counts c" k]
    by (cases "dict_contains (category_counts c) k") (auto split: if_splits)
qed

lemma counters_inv_entry:
  assumes "counters_inv ts c" and "(k, data) \<in> set (category_counts c)"
  shows "category_group k ts \<noteq> []
         \<and> total_cat data = int (length (category_group k ts))
         \<and> critical_cat data = critical_count (category_group k ts)"
proof -
  have get: "dict_getitem (category_counts c) k = Inr data"
    using assms by (intro dict_getitem_mem) (simp_all add: counters_inv_def)
  have "if category_group k ts = [] then dict_getitem (category_counts c) k = Inl KeyError
             else dict_getitem (category_counts c) k =
                    Inr \<lparr>total_cat = int (length (category_group k ts)),
                         critical_cat = critical_count (category_group k ts)\<rparr>"
    using assms(1) by (simp add: counters_inv_def)
  then show ?thesis using get by (auto split: if_splits)
qed

lemma rates_loop_result:
  assumes "distinct (map key_norm (map fst acc @ map fst items))"
    and "\<forall>(k, data) \<in> set items. 0 \<le> critical_cat data \<and> critical_cat data \<le> total_cat data
            \<and> 0 < total_cat data"
  shows "\<exists>out. rates_loop acc items = Inr out
           \<and> map fst out = map fst acc @ map fst items
           \<and> (\<forall>k r. (k, r) \<in> set out \<longrightarrow>
                 (k, r) \<in> set acc
                 \<or> (\<exists>data. (k, data) \<in> set items
                        \<and> percentage (critical_cat data) (total_cat data) = Inr r))"
  using assms
proof (induction items arbitrary: acc)
  case Nil
  then show ?case by simp
next
  case (Cons item items)
  obtain cat data where item: "item = (cat, data)" by (cases item)
  have absent: "\<not> dict_contains acc cat"
    using Cons.prems(1) by (auto simp: item dict_contains_iff)
  have b: "0 \<le> critical_cat data" "critical_cat data \<le> total_cat data" "0 < total_cat data"
    using Cons.prems(2) by (auto simp: item)
  obtain x where x: "percentage (critical_cat data) (total_cat data) = Inr (Fin x)"
    using percentage_bounds[OF b] by blast
  have set: "dict_setitem acc cat (Fin x) = acc @ [(cat, Fin x)]"
    using absent by (rule dict_setitem_absent)
  have dist: "distinct (map key_norm (map fst (acc @ [(cat, Fin x)]) @ map fst items))"
    using Cons.prems(1) by (simp add: item)
  have rest: "\<forall>(k, data) \<in> set items. 0 \<le> critical_cat data \<and> critical_cat data \<le> total_cat data
            \<and> 0 < total_cat data"
    using Cons.prems(2) by simp
  obtain out where out: "rates_loop (acc @ [(cat, Fin x)]) items = Inr out"
    and keys: "map fst out = map fst (acc @ [(cat, Fin x)]) @ map fst items"
    and ent: "\<forall>k r. (k, r) \<in> set out \<longrightarrow>
                 (k, r) \<in> set (acc @ [(cat, Fin x)])
                 \<or> (\<exists>data. (k, data) \<in> set items
                        \<and> percentage (critical_cat data) (total_cat data) = Inr r)"
    using Cons.IH[OF dist rest] by blast
  have run: "rates_loop acc (item # items) = Inr out"
    using b(3) by (simp add: item x set out)
  have ent': "(k, r) \<in> set acc
                 \<or> (\<exists>data. (k, data) \<in> set (item # items)
                        \<and> percentage (critical_cat data) (total_cat data) = Inr r)"
    if kr: "(k, r) \<in> set out" for k r
    using ent kr x by (auto simp: item)
  show ?case using run keys ent' by (auto simp: item)
qed

lemma rate_for_bounds: "\<exists>x. rate_for tickets = Inr (Fin x) \<and> 0 \<le> x \<and> x \<le> 100"
proof (cases "tickets = []")
  case True
  then show ?thesis by (simp add: rate_for_def)
next
  case False
  then have pos: "0 < int (length tickets)" by simp
  show ?thesis
    using percentage_bounds[OF _ _ pos, of "critical_count tickets"] critical_count_bounds[of tickets]
      False
    by (simp add: rate_for_def)
qed

text \<open>
  The whole of \<open>get_escalation_rates\<close>: it returns, with these rates.
\<close>

lemma get_escalation_rates_result:
  "\<exists>r. get_escalation_rates tickets = Inr r
       \<and> Inr (overall_rate r) = rate_for tickets
       \<and> distinct (map key_norm (map fst (by_category r)))
       \<and> (\<forall>k. dict_getitem (by_category r) k =
                (if category_group k tickets = [] then Inl KeyError
                 else rate_for (category_group k tickets)))"
proof -
  obtain c where loop: "escalation_loop \<lparr>category_counts = [], total_tickets = 0, total_critical = 0\<rparr> tickets = Inr c"
    and inv: "counters_inv tickets c"
    using escalation_loop_inv by blast
  have tt: "total_tickets c = int (length tickets)" and tc: "total_critical c = critical_count tickets"
    and dist: "distinct (map key_norm (map fst (category_counts c)))"
    using inv by (simp_all add: counters_inv_def)
  have rf: "\<exists>x. rate_for tickets = Inr (Fin x) \<and> 0 \<le> x \<and> x \<le> 100"
    by (rule rate_for_bounds)
  then obtain overall where ov: "rate_for tickets = Inr overall" by blast
  have overall:
    "(if total_tickets c > 0 then percentage (total_critical c) (total_tickets c) else Inr (Fin 0))
       = Inr overall"
    using ov by (cases "tickets = []") (simp_all add: tt tc rate_for_def)
  have items: "\<forall>(k, data) \<in> set (category_counts c).
        0 \<le> critical_cat data \<and> critical_cat data \<le> total_cat data \<and> 0 < total_cat data"
  proof (clarify, intro conjI)
    fix k data assume m: "(k, data) \<in> set (category_counts c)"
    have e: "category_group k tickets \<noteq> []
         \<and> total_cat data = int (length (category_group k tickets))
         \<and> critical_cat data = critical_count (category_group k tickets)"
      using inv m by (rule counters_inv_entry)
    show "0 \<le> critical_cat data" using e critical_count_bounds by simp
    show "critical_cat data \<le> total_cat data" using e critical_count_bounds by simp
    show "0 < total_cat data" using e by simp
  qed
  have "distinct (map key_norm (map fst ([] :: pyfloat pydict) @ map fst (category_counts c)))"
    using dist by simp
  from rates_loop_result[OF this items]
  obtain byc where byc: "rates_loop [] (category_counts c) = Inr byc"
    and keys: "map fst byc = map fst (category_counts c)"
    and ent: "\<forall>k r. (k, r) \<in> set byc \<longrightarrow>
                 (\<exists>data. (k, data) \<in> set (category_counts c)
                        \<and> percentage (critical_cat data) (total_cat data) = Inr r)"
    by auto
  have res: "get_escalation_rates tickets = Inr \<lparr>overall_rate = overall, by_category = byc\<rparr>"
    by (simp add: get_escalation_rates_def loop overall byc)
  have dist': "distinct (map key_norm (map fst byc))" using dist keys by simp
  have look: "dict_getitem byc k =
                (if category_group k tickets = [] then Inl KeyError
                 else rate_for (category_group k tickets))" for k
  proof (cases "dict_contains byc k")
    case False
    then have "\<not> dict_contains (category_counts c) k" using dict_contains_keys[OF keys] by simp
    then have "category_group k tickets = []" using counters_inv_contains[OF inv] by simp
    then show ?thesis using False by (simp add: dict_getitem_absent)
  next
    case True
    then obtain k' r where kr: "(k', r) \<in> set byc" and kc: "key_eq k' k"
      using dict_contains_mem by blast
    obtain data where data: "(k', data) \<in> set (category_counts c)"
      and pc: "percentage (critical_cat data) (total_cat data) = Inr r"
      using ent kr by blast
    have e: "category_group k' tickets \<noteq> []
         \<and> total_cat data = int (length (category_group k' tickets))
         \<and> critical_cat data = critical_count (category_group k' tickets)"
      using inv data by (rule counters_inv_entry)
    have "rate_for (category_group k' tickets) = Inr r"
      using e pc by (simp add: rate_for_def)
    moreover have "dict_getitem byc k' = Inr r"
      using dist' kr by (intro dict_getitem_mem) simp_all
    ultimately show ?thesis
      using e dict_getitem_key_eq[OF kc, of byc] category_group_key_eq[OF kc, of tickets]
      by simp
  qed
  show ?thesis using res ov dist' look by auto
qed

subsection \<open>The sample inputs, evaluated\<close>

lemmas py_eval = py_add_def py_truediv_def float_mul_int_def percentage_def checked_double_def
  get_default_def get_field_def key_eq_def round_half_even_def float_of_int_100

lemma scenario_B_average:
  "get_average_resolution_by_category scenario_B = Inr [(PStr ''A'', PFloat (Fin 15))]"
  by (simp add: scenario_B_def get_average_resolution_by_category_def average_step_def py_eval
        round_double_15)

lemma scenario_C_rates:
  "get_escalation_rates scenario_C =
     Inr \<lparr>overall_rate = Fin 50, by_category = [(PStr ''X'', Fin 50)]\<rparr>"
  by (simp add: scenario_C_def get_escalation_rates_def escalation_step_def py_eval
        round_double_half round_double_50)

lemma scenario_D_average: "get_average_resolution_by_category scenario_D = Inr []"
  by (simp add: scenario_D_def get_average_resolution_by_category_def average_step_def py_eval)

lemma mixed_average:
  "get_average_resolution_by_category mixed_tickets = Inr [(PStr ''A'', PFloat (Fin (7 / 4)))]"
  by (simp add: mixed_tickets_def get_average_resolution_by_category_def average_step_def py_eval
        float_of_int_0 float_of_int_1 float_of_int_2 round_double_5_2 round_double_7_2
        round_double_7_4)

lemma single_ticket_overflow:
  assumes "checked_double (of_int n) = Inl OverflowError"
  shows "get_average_resolution_by_category [[''resolution_minutes'' \<mapsto> PInt n]]
           = Inl OverflowError"
  using assms
  by (simp add: get_average_resolution_by_category_def average_step_def
        py_add_def py_truediv_def get_default_def key_eq_def)

lemma huge_minutes_average:
  "get_average_resolution_by_category huge_minutes = Inl OverflowError"
  unfolding huge_minutes_def using checked_double_2_1024 by (rule single_ticket_overflow)

section \<open>Claims\<close>

text \<open>
  Claim C1. \<open>get_average_resolution_by_category\<close> returns exactly when
  \<open>round(sum / count, 2)\<close> can be computed for every category that has a counted ticket,
  that is, when no operand is too large for a float; it does so whenever every counted
  resolution time is a boolean or an integer from 0 below \<open>2 ^ 53\<close>. Whenever it returns,
  its result has one entry per category key, and looking any category \<open>c\<close> up in it gives:
  no entry when no counted ticket has that category, and otherwise \<open>round(sum / count, 2)\<close>
  over the counted tickets of the category (the category read with the default
  \<open>Unknown\<close>). A ticket without \<open>resolution_minutes\<close> is counted and contributes \<open>0\<close>;
  a ticket whose value is present and neither \<open>int\<close> nor \<open>float\<close> is in neither the sum
  nor the count.
\<close>

theorem average_by_category:
  "((\<exists>avgs. get_average_resolution_by_category tickets = Inr avgs)
      \<longleftrightarrow> (\<forall>c. counted_group c tickets \<noteq> [] \<longrightarrow> (\<exists>v. average_for c tickets = Inr v)))
   \<and> ((\<forall>t \<in> set tickets. counted t \<longrightarrow> small_minutes t)
        \<longrightarrow> (\<exists>avgs. get_average_resolution_by_category tickets = Inr avgs))
   \<and> (\<forall>avgs. get_average_resolution_by_category tickets = Inr avgs \<longrightarrow>
          distinct (map key_norm (map fst avgs))
          \<and> (\<forall>c. dict_getitem avgs c =
                   (if counted_group c tickets = [] then Inl KeyError
                    else average_for c tickets)))"
proof (intro conjI)
  show "(\<exists>avgs. get_average_resolution_by_category tickets = Inr avgs)
      \<longleftrightarrow> (\<forall>c. counted_group c tickets \<noteq> [] \<longrightarrow> (\<exists>v. average_for c tickets = Inr v))"
  proof
    assume "\<exists>avgs. get_average_resolution_by_category tickets = Inr avgs"
    then obtain avgs where r: "get_average_resolution_by_category tickets = Inr avgs" by blast
    obtain d where inv: "stats_inv tickets d" and keys: "map fst avgs = map fst d"
      using get_average_result[OF r] by blast
    show "\<forall>c. counted_group c tickets \<noteq> [] \<longrightarrow> (\<exists>v. average_for c tickets = Inr v)"
    proof (intro allI impI)
      fix c assume ne: "counted_group c tickets \<noteq> []"
      then have "dict_contains d c" using stats_inv_contains[OF inv] by simp
      then have "dict_contains avgs c" using dict_contains_keys[OF keys] by simp
      then obtain v where "dict_getitem avgs c = Inr v" using dict_getitem_present by blast
      then show "\<exists>v. average_for c tickets = Inr v"
        using get_average_lookup[OF r] ne by auto
    qed
  next
    assume "\<forall>c. counted_group c tickets \<noteq> [] \<longrightarrow> (\<exists>v. average_for c tickets = Inr v)"
    then show "\<exists>avgs. get_average_resolution_by_category tickets = Inr avgs"
      by (rule get_average_returns)
  qed
next
  show "(\<forall>t \<in> set tickets. counted t \<longrightarrow> small_minutes t)
        \<longrightarrow> (\<exists>avgs. get_average_resolution_by_category tickets = Inr avgs)"
    using average_for_small[of tickets] by (intro impI get_average_returns) blast
next
  show "\<forall>avgs. get_average_resolution_by_category tickets = Inr avgs \<longrightarrow>
          distinct (map key_norm (map fst avgs))
          \<and> (\<forall>c. dict_getitem avgs c =
                   (if counted_group c tickets = [] then Inl KeyError
                    else average_for c tickets))"
    using get_average_lookup by blast
qed

theorem average_by_category_witness:
  "get_average_resolution_by_category scenario_B = Inr [(PStr ''A'', PFloat (Fin 15))]
   \<and> average_for (PStr ''A'') scenario_B = Inr (PFloat (Fin 15))
   \<and> counted_group (PStr ''Z'') scenario_B = []"
proof -
  have g: "counted_group (PStr ''A'') scenario_B \<noteq> []"
    by (simp add: counted_group_def scenario_B_def counted_def category_of_def)
  have z: "counted_group (PStr ''Z'') scenario_B = []"
    by (simp add: counted_group_def scenario_B_def counted_def category_of_def key_eq_def)
  from average_by_category[of scenario_B] scenario_B_average
  have "dict_getitem [(PStr ''A'', PFloat (Fin 15))] (PStr ''A'') =
          (if counted_group (PStr ''A'') scenario_B = [] then Inl KeyError
           else average_for (PStr ''A'') scenario_B)"
    by blast
  then show ?thesis using g z scenario_B_average by simp
qed



text \<open>
  Claim C3, as stated, fails on Scenario D: the one ticket is skipped before any group is
  created for its category, so the result has no entry for \<open>Unknown\<close> at all, rather than
  an entry with average \<open>0\<close>.
\<close>

theorem scenario_D_unknown_counterexample:
  "(case get_average_resolution_by_category scenario_D of
      Inl e \<Rightarrow> Inl e
    | Inr avgs \<Rightarrow> dict_getitem avgs (PStr ''Unknown'')) = Inl KeyError"
  by (simp add: scenario_D_average)

text \<open>
  Claim C3, amended. On Scenario D, \<open>find_invalid_resolutions\<close> returns exactly one entry,
  with \<open>issue_type\<close> \<open>Wrong Type\<close> and \<open>invalid_value\<close> \<open>bad\<close>, and
  \<open>get_average_resolution_by_category\<close> returns the empty mapping.
\<close>

theorem scenario_D_results:
  "find_invalid_resolutions scenario_D =
     [\<lparr>index = 0, ticket_id = PStr ''UNKNOWN'', invalid_value = PStr ''bad'',
       issue_type = ''Wrong Type''\<rparr>]
   \<and> get_average_resolution_by_category scenario_D = Inr []"
proof -
  have "find_invalid_resolutions scenario_D =
     [\<lparr>index = 0, ticket_id = PStr ''UNKNOWN'', invalid_value = PStr ''bad'',
       issue_type = ''Wrong Type''\<rparr>]"
    by (simp add: find_invalid_resolutions_eq scenario_D_def flagged_def diagnostic_def)
  then show ?thesis using scenario_D_average by simp
qed

theorem scenario_D_results_witness:
  "map issue_type (find_invalid_resolutions scenario_D) = [''Wrong Type'']
   \<and> map invalid_value (find_invalid_resolutions scenario_D) = [PStr ''bad'']
   \<and> \<not> dict_contains (case get_average_resolution_by_category scenario_D of
                          Inl e \<Rightarrow> [] | Inr avgs \<Rightarrow> avgs) (PStr ''Unknown'')"
  using scenario_D_results by simp

text \<open>
  Claim C4. \<open>find_invalid_resolutions\<close> returns, in input order, exactly one diagnostic per
  ticket whose \<open>resolution_minutes\<close> is absent, null or not an integer. The diagnostic holds
  the ticket's index, its \<open>ticket_id\<close> (\<open>UNKNOWN\<close> when absent), the offending value
  (null when absent), and \<open>Missing\<close> exactly when the value was null or absent,
  \<open>Wrong Type\<close> otherwise.
\<close>

theorem find_invalid_resolutions_entries:
  "find_invalid_resolutions tickets =
     map (\<lambda>(i, t). diagnostic i t) (filter (\<lambda>(i, t). flagged t) (enumerate 0 tickets))"
  by (rule find_invalid_resolutions_eq)

theorem find_invalid_resolutions_entries_witness:
  "find_invalid_resolutions mixed_tickets =
     [\<lparr>index = 0, ticket_id = PStr ''T1'', invalid_value = PFloat (Fin (5 / 2)),
       issue_type = ''Wrong Type''\<rparr>,
      \<lparr>index = 2, ticket_id = PStr ''T3'', invalid_value = PNone, issue_type = ''Missing''\<rparr>]"
  using find_invalid_resolutions_entries[of mixed_tickets]
  by (simp add: mixed_tickets_def flagged_def diagnostic_def)

text \<open>
  Claim C5. \<open>validate_keys\<close> returns strictly ascending indices, each below the number of
  tickets, and an index is returned exactly when its ticket lacks one of the required keys
  (whatever the values of the keys it has).
\<close>

theorem validate_keys_ascending_iff:
  "sorted_wrt (<) (validate_keys tickets required_keys)
   \<and> (\<forall>i \<in> set (validate_keys tickets required_keys). i < length tickets)
   \<and> (\<forall>i. i \<in> set (validate_keys tickets required_keys)
           \<longleftrightarrow> i < length tickets \<and> \<not> set required_keys \<subseteq> dom (tickets ! i))"
proof -
  have mem: "i \<in> set (validate_keys tickets required_keys)
           \<longleftrightarrow> i < length tickets \<and> \<not> set required_keys \<subseteq> dom (tickets ! i)" for i
    by (auto simp: validate_keys_def validate_keys_loop_eq issubset_iff in_set_enumerate_eq image_iff)
  show ?thesis
    using mem by (simp add: validate_keys_def validate_keys_loop_eq sorted_wrt_map_fst_filter_enumerate)
qed

theorem validate_keys_witness:
  "validate_keys mixed_tickets [''ticket_id'', ''category''] = [1]
   \<and> sorted_wrt (<) (validate_keys mixed_tickets [''ticket_id'', ''category''])
   \<and> 1 < length mixed_tickets
   \<and> \<not> set [''ticket_id'', ''category''] \<subseteq> dom (mixed_tickets ! 1)"
proof -
  have e: "validate_keys mixed_tickets [''ticket_id'', ''category''] = [1]"
    by (simp add: validate_keys_def mixed_tickets_def issubset_def)
  show ?thesis
    using validate_keys_ascending_iff[of mixed_tickets "[''ticket_id'', ''category'']"] e
    by (metis list.set_intros(1))
qed

text \<open>
  Claim C6. A ticket whose \<open>resolution_minutes\<close> is a boolean is not reported by
  \<open>find_invalid_resolutions\<close>.
\<close>

theorem boolean_resolution_not_flagged:
  assumes "i < length tickets" and "(tickets ! i) ''resolution_minutes'' = Some (PBool b)"
  shows "i \<notin> index ` set (find_invalid_resolutions tickets)"
proof
  assume "i \<in> index ` set (find_invalid_resolutions tickets)"
  then obtain j t where "(j, t) \<in> set (enumerate 0 tickets)" "flagged t" "index (diagnostic j t) = i"
    by (auto simp: find_invalid_resolutions_eq)
  then have "flagged (tickets ! i)"
    by (auto simp: in_set_enumerate_eq diagnostic_def)
  then show False using assms(2) by (simp add: flagged_def)
qed

theorem boolean_resolution_not_flagged_witness:
  "1 < length mixed_tickets
   \<and> (mixed_tickets ! 1) ''resolution_minutes'' = Some (PBool True)
   \<and> 1 \<notin> index ` set (find_invalid_resolutions mixed_tickets)"
proof -
  have a: "1 < length mixed_tickets" by (simp add: mixed_tickets_def)
  have b: "(mixed_tickets ! 1) ''resolution_minutes'' = Some (PBool True)"
    by (simp add: mixed_tickets_def)
  show ?thesis using a b boolean_resolution_not_flagged[OF a b] by simp
qed

text \<open>
  Claim C7, as stated, fails: \<open>generate_final_report\<close> does not return a structure for
  every ticket sequence. An integer \<open>resolution_minutes\<close> of \<open>2 ^ 1024\<close> makes the average's
  division raise \<open>OverflowError\<close>, and the report raises with it.
\<close>

theorem final_report_overflow_counterexample:
  "generate_final_report huge_minutes = Inl OverflowError"
  by (simp add: generate_final_report_def huge_minutes_average)

text \<open>
  Claim C7, amended. \<open>get_escalation_rates\<close> always returns, and whenever
  \<open>get_average_resolution_by_category\<close> returns, \<open>generate_final_report\<close> returns the
  structure with \<open>meta\<close> exactly the number of tickets and the status \<open>Success\<close>, with
  \<open>averages\<close> that result and \<open>escalations\<close> the result of \<open>get_escalation_rates\<close>;
  when the averages raise, the report raises the same error.
\<close>

theorem final_report_structure:
  "\<exists>esc. get_escalation_rates tickets = Inr esc
       \<and> generate_final_report tickets =
           (case get_average_resolution_by_category tickets of
              Inl e \<Rightarrow> Inl e
            | Inr avgs \<Rightarrow>
                Inr \<lparr>meta = \<lparr>total_records = length tickets, status = ''Success''\<rparr>,
                     averages = avgs,
                     escalations = esc\<rparr>)"
proof -
  obtain esc where "get_escalation_rates tickets = Inr esc"
    using get_escalation_rates_result[of tickets] by blast
  then show ?thesis
    by (auto simp: generate_final_report_def split: sum.splits)
qed

theorem final_report_structure_witness:
  "generate_final_report scenario_B =
     Inr \<lparr>meta = \<lparr>total_records = 2, status = ''Success''\<rparr>,
          averages = [(PStr ''A'', PFloat (Fin 15))],
          escalations = \<lparr>overall_rate = Fin 0, by_category = [(PStr ''A'', Fin 0)]\<rparr>\<rparr>"
proof -
  have e: "get_escalation_rates scenario_B =
             Inr \<lparr>overall_rate = Fin 0, by_category = [(PStr ''A'', Fin 0)]\<rparr>"
    by (simp add: scenario_B_def get_escalation_rates_def escalation_step_def py_eval
          round_double_0)
  show ?thesis
    using final_report_structure[of scenario_B] e scenario_B_average
    by (simp add: scenario_B_def)
qed

text \<open>
  Claim C8. For every ticket sequence \<open>get_escalation_rates\<close> returns an
  \<open>overall_rate\<close> that is a finite float in the closed interval from 0 to 100. On the empty
  sequence it returns the rate \<open>0.0\<close> with an empty \<open>by_category\<close>, and
  \<open>get_average_resolution_by_category\<close> returns the empty mapping.
\<close>

theorem overall_rate_range:
  "(\<exists>r x. get_escalation_rates tickets = Inr r \<and> overall_rate r = Fin x \<and> 0 \<le> x \<and> x \<le> 100)
   \<and> get_escalation_rates [] = Inr \<lparr>overall_rate = Fin 0, by_category = []\<rparr>
   \<and> get_average_resolution_by_category [] = Inr []"
proof -
  obtain r where r: "get_escalation_rates tickets = Inr r" and o: "Inr (overall_rate r) = rate_for tickets"
    using get_escalation_rates_result[of tickets] by blast
  obtain x where "rate_for tickets = Inr (Fin x)" "0 \<le> x" "x \<le> 100"
    using rate_for_bounds by blast
  then have "overall_rate r = Fin x \<and> 0 \<le> x \<and> x \<le> 100" using o by simp
  moreover have "get_escalation_rates [] = Inr \<lparr>overall_rate = Fin 0, by_category = []\<rparr>"
    by (simp add: get_escalation_rates_def)
  moreover have "get_average_resolution_by_category [] = Inr []"
    by (simp add: get_average_resolution_by_category_def)
  ultimately show ?thesis using r by blast
qed

theorem overall_rate_range_witness:
  "get_escalation_rates scenario_C =
     Inr \<lparr>overall_rate = Fin 50, by_category = [(PStr ''X'', Fin 50)]\<rparr>
   \<and> (0::rat) \<le> 50 \<and> (50::rat) \<le> 100
   \<and> get_escalation_rates [] = Inr \<lparr>overall_rate = Fin 0, by_category = []\<rparr>"
  using overall_rate_range[of scenario_C] scenario_C_rates by simp

text \<open>
  Claim C9. A ticket whose \<open>resolution_minutes\<close> is a float is reported by
  \<open>find_invalid_resolutions\<close> with \<open>Wrong Type\<close>, and is among the tickets that
  \<open>get_average_resolution_by_category\<close> sums and counts for its category: whenever the
  function returns, the returned mapping has an entry for the ticket's category, and that
  entry is \<open>round(sum / count, 2)\<close> over a group of tickets that contains this ticket (after
  the first loop the category's total is the sum, and its count the number, of that group).
  Every ticket the validator accepts is counted by the aggregator, and some counted ticket
  is rejected by the validator.
\<close>

theorem float_resolution_flagged_yet_counted:
  assumes "i < length tickets"
    and "(tickets ! i) ''resolution_minutes'' = Some (PFloat f)"
  shows "diagnostic i (tickets ! i) \<in> set (find_invalid_resolutions tickets)
         \<and> issue_type (diagnostic i (tickets ! i)) = ''Wrong Type''
         \<and> invalid_value (diagnostic i (tickets ! i)) = PFloat f
         \<and> tickets ! i \<in> set (counted_group (category_of (tickets ! i)) tickets)
         \<and> minutes_of (tickets ! i) = PFloat f
         \<and> (\<forall>avgs. get_average_resolution_by_category tickets = Inr avgs \<longrightarrow>
               (\<exists>v. dict_getitem avgs (category_of (tickets ! i)) = Inr v
                    \<and> average_for (category_of (tickets ! i)) tickets = Inr v))
         \<and> (\<forall>d. average_loop [] tickets = Inr d \<longrightarrow>
               (\<exists>s. py_sum (PInt 0)
                       (map minutes_of (counted_group (category_of (tickets ! i)) tickets)) = Inr s
                   \<and> dict_getitem d (category_of (tickets ! i)) =
                       Inr \<lparr>total_minutes = s,
                            count_tickets =
                              int (length (counted_group (category_of (tickets ! i)) tickets))\<rparr>))
         \<and> (\<forall>t. \<not> flagged t \<longrightarrow> counted t)
         \<and> (\<exists>t. flagged t \<and> counted t)"
proof -
  let ?t = "tickets ! i"
  let ?c = "category_of ?t"
  have fl: "flagged ?t" using assms(2) by (simp add: flagged_def)
  have co: "counted ?t" using assms(2) by (simp add: counted_def)
  have "(i, ?t) \<in> set (enumerate 0 tickets)"
    using assms(1) by (simp add: in_set_enumerate_eq)
  then have a: "diagnostic i ?t \<in> set (find_invalid_resolutions tickets)"
    using fl by (force simp: find_invalid_resolutions_eq)
  have b: "issue_type (diagnostic i ?t) = ''Wrong Type''"
    using assms(2) by (simp add: diagnostic_def)
  have b': "invalid_value (diagnostic i ?t) = PFloat f"
    using assms(2) by (simp add: diagnostic_def)
  have c: "?t \<in> set (counted_group ?c tickets)"
    using assms(1) co by (simp add: counted_group_def)
  then have ne: "counted_group ?c tickets \<noteq> []" by auto
  have c': "minutes_of ?t = PFloat f" using assms(2) by (simp add: minutes_of_def)
  have g: "\<exists>v. dict_getitem avgs ?c = Inr v \<and> average_for ?c tickets = Inr v"
    if r: "get_average_resolution_by_category tickets = Inr avgs" for avgs
  proof -
    obtain d where inv: "stats_inv tickets d" and keys: "map fst avgs = map fst d"
      using get_average_result[OF r] by blast
    have "dict_contains d ?c" using stats_inv_contains[OF inv] ne by simp
    then have "dict_contains avgs ?c" using dict_contains_keys[OF keys] by simp
    then obtain v where v: "dict_getitem avgs ?c = Inr v"
      using dict_getitem_present by blast
    moreover have "dict_getitem avgs ?c = average_for ?c tickets"
      using get_average_lookup[OF r] ne by simp
    ultimately show ?thesis by simp
  qed
  have d: "\<exists>s. py_sum (PInt 0) (map minutes_of (counted_group ?c tickets)) = Inr s
                   \<and> dict_getitem d ?c =
                       Inr \<lparr>total_minutes = s,
                            count_tickets = int (length (counted_group ?c tickets))\<rparr>"
    if loop: "average_loop [] tickets = Inr d" for d
  proof -
    have "stats_inv tickets d" using loop by (rule average_loop_inv)
    then have "if counted_group ?c tickets = []
               then dict_getitem d ?c = Inl KeyError
               else \<exists>s. py_sum (PInt 0) (map minutes_of (counted_group ?c tickets)) = Inr s
                    \<and> dict_getitem d ?c =
                        Inr \<lparr>total_minutes = s,
                             count_tickets = int (length (counted_group ?c tickets))\<rparr>"
      by (simp add: stats_inv_def)
    then show ?thesis using ne by simp
  qed
  have e: "\<forall>t. \<not> flagged t \<longrightarrow> counted t"
  proof (intro allI impI)
    fix t assume "\<not> flagged t"
    then show "counted t"
      by (cases "t ''resolution_minutes''")
         (auto simp: flagged_def counted_def elim: isinstance_int.elims)
  qed
  have f: "\<exists>t. flagged t \<and> counted t" using fl co by blast
  show ?thesis using a b b' c c' g d e f by blast
qed

theorem float_resolution_flagged_yet_counted_witness:
  "0 < length mixed_tickets
   \<and> (mixed_tickets ! 0) ''resolution_minutes'' = Some (PFloat (Fin (5 / 2)))
   \<and> diagnostic 0 (mixed_tickets ! 0) \<in> set (find_invalid_resolutions mixed_tickets)
   \<and> issue_type (diagnostic 0 (mixed_tickets ! 0)) = ''Wrong Type''
   \<and> mixed_tickets ! 0 \<in> set (counted_group (PStr ''A'') mixed_tickets)
   \<and> get_average_resolution_by_category mixed_tickets
       = Inr [(PStr ''A'', PFloat (Fin (7 / 4)))]
   \<and> dict_getitem [(PStr ''A'', PFloat (Fin (7 / 4)))] (PStr ''A'') = Inr (PFloat (Fin (7 / 4)))
   \<and> average_for (PStr ''A'') mixed_tickets = Inr (PFloat (Fin (7 / 4)))"
proof -
  have a: "0 < length mixed_tickets" by (simp add: mixed_tickets_def)
  have b: "(mixed_tickets ! 0) ''resolution_minutes'' = Some (PFloat (Fin (5 / 2)))"
    by (simp add: mixed_tickets_def)
  have c: "category_of (mixed_tickets ! 0) = PStr ''A''"
    by (simp add: mixed_tickets_def category_of_def)
  have l: "dict_getitem [(PStr ''A'', PFloat (Fin (7 / 4)))] (PStr ''A'')
             = Inr (PFloat (Fin (7 / 4)))"
    by simp
  from float_resolution_flagged_yet_counted[OF a b] mixed_average
  have "\<exists>v. dict_getitem [(PStr ''A'', PFloat (Fin (7 / 4)))] (category_of (mixed_tickets ! 0)) = Inr v
           \<and> average_for (category_of (mixed_tickets ! 0)) mixed_tickets = Inr v"
    by blast
  then have av: "average_for (PStr ''A'') mixed_tickets = Inr (PFloat (Fin (7 / 4)))"
    using l by (auto simp: c)
  show ?thesis
    using a b c l av mixed_average float_resolution_flagged_yet_counted[OF a b] by simp
qed

text \<open>
  Claim C10. Every key of the result of \<open>get_average_resolution_by_category\<close> is the
  category of a ticket whose \<open>resolution_minutes\<close> is an \<open>int\<close>, a \<open>bool\<close>, a
  \<open>float\<close> or absent. Every group the first loop leaves has a count of at least 1, so no
  average is the integer \<open>0\<close> of the zero-count branch, and a category all of whose tickets
  carry a present non-numeric value has no entry.
\<close>

theorem average_keys_counted:
  assumes "get_average_resolution_by_category tickets = Inr avgs"
  shows "(\<forall>c \<in> set (map fst avgs). \<exists>t \<in> set tickets. counted t \<and> category_of t = c)
         \<and> (\<exists>d. average_loop [] tickets = Inr d \<and> map fst d = map fst avgs
               \<and> (\<forall>(c, data) \<in> set d. 1 \<le> count_tickets data))
         \<and> (\<forall>c v. (c, v) \<in> set avgs \<longrightarrow> v \<noteq> PInt 0)
         \<and> (\<forall>c. (\<forall>t \<in> set tickets. key_eq (category_of t) c \<longrightarrow> \<not> counted t)
                 \<longrightarrow> \<not> dict_contains avgs c)"
proof -
  obtain d where d: "average_loop [] tickets = Inr d"
    and inv: "stats_inv tickets d" and keys: "map fst avgs = map fst d"
    and ent: "\<forall>c v. (c, v) \<in> set avgs \<longrightarrow> (\<exists>data. (c, data) \<in> set d \<and> average_of data v)"
    using get_average_result[OF assms(1)] by blast
  have k: "\<forall>c \<in> set (map fst avgs). \<exists>t \<in> set tickets. counted t \<and> category_of t = c"
    using inv by (simp add: stats_inv_def keys)
  have cnt: "1 \<le> count_tickets data" if "(c, data) \<in> set d" for c data
  proof -
    have "counted_group c tickets \<noteq> [] \<and> count_tickets data = int (length (counted_group c tickets))"
      using stats_inv_entry[OF inv that] by simp
    then show ?thesis by (cases "counted_group c tickets") simp_all
  qed
  have nz: "v \<noteq> PInt 0" if cv: "(c, v) \<in> set avgs" for c v
  proof -
    obtain data where "(c, data) \<in> set d" and "average_of data v" using ent cv by blast
    then show ?thesis using cnt[of c data] by (auto simp: average_of_def)
  qed
  have absent: "\<not> dict_contains avgs c"
    if none: "\<forall>t \<in> set tickets. key_eq (category_of t) c \<longrightarrow> \<not> counted t" for c
  proof
    assume "dict_contains avgs c"
    then have "key_norm c \<in> key_norm ` set (map fst avgs)"
      by (simp add: dict_contains_iff image_image)
    then obtain k where kin: "k \<in> set (map fst avgs)" and kc: "key_norm k = key_norm c"
      by (metis imageE)
    obtain t where "t \<in> set tickets" "counted t" "category_of t = k"
      using k kin by blast
    then show False using none kc by (auto simp: key_eq_def)
  qed
  show ?thesis using k d keys cnt nz absent by (intro conjI) auto
qed

theorem average_keys_counted_witness:
  "get_average_resolution_by_category mixed_tickets = Inr [(PStr ''A'', PFloat (Fin (7 / 4)))]
   \<and> (\<exists>t \<in> set mixed_tickets. counted t \<and> category_of t = PStr ''A'')
   \<and> \<not> dict_contains [(PStr ''A'', PFloat (Fin (7 / 4)))] (PStr ''B'')"
proof -
  have none: "\<forall>t \<in> set mixed_tickets. key_eq (category_of t) (PStr ''B'') \<longrightarrow> \<not> counted t"
    by (simp add: mixed_tickets_def category_of_def counted_def key_eq_def)
  show ?thesis
    using average_keys_counted[OF mixed_average] none mixed_average by simp
qed

end
